theory Spec2Isabelle
  imports Main "HOL-Library.AList" "HOL-Library.Multiset"
begin

unbundle bit_operations_syntax

section \<open>Data model of ClassVectorParameterUI.py\<close>

text \<open>
  A class entry is the tuple \<^verbatim>\<open>c[1:]\<close> of an element of
  \<^verbatim>\<open>self.parameter.getClasses( True )\<close>: parameter name, class name, class version.
  The class instance \<^verbatim>\<open>c[0]\<close> is never part of the lists the widget computes.
\<close>

type_synonym classEntry = "string \<times> string \<times> int"

text \<open>
  A \<^verbatim>\<open>ChildUI\<close> as the container sees it: the handle of its top level widget and the
  two attributes \<^verbatim>\<open>__className\<close> and \<^verbatim>\<open>__classVersion\<close> the container stores on it.
\<close>

record childUI =
  topLevelUI :: nat
  className :: string
  classVersion :: int

text \<open>
  The calls into the host that the claims observe, in the order they are made:
  \<^verbatim>\<open>maya.cmds.deleteUI\<close>, the construction of a \<^verbatim>\<open>ChildUI\<close> for a parameter name, the
  closing \<^verbatim>\<open>maya.cmds.formLayout( edit=True )\<close> of a reconciliation (with the child handles
  from top to bottom) and \<^verbatim>\<open>fnPH.setClassVectorParameterClasses\<close>.
\<close>

datatype event =
    DeleteUI nat
  | CreateUI nat string
  | FormLayoutEdit "nat list"
  | SetClasses "classEntry list"

datatype error =
    RuntimeError string
  | IndexError
  | KeyError string
  | TypeError
  | AttributeError

text \<open>
  The state the container works on: \<open>classes\<close> is what
  \<^verbatim>\<open>[ c[1:] for c in self.parameter.getClasses( True ) ]\<close> reads from the host,
  \<open>childUIs\<close> is the dictionary \<^verbatim>\<open>self.__childUIs\<close> (looked up with \<open>map_of\<close>, written with
  \<open>AList.update\<close> and \<open>AList.delete\<close>), \<open>nextUI\<close> is the next unused widget handle of the
  host and \<open>trace\<close> the host calls made so far.
\<close>

record ui_state =
  classes :: "classEntry list"
  childUIs :: "(string \<times> childUI) list"
  nextUI :: nat
  trace :: "event list"

section \<open>Reconciliation: \<^verbatim>\<open>__updateChildUIs\<close>\<close>

text \<open>
  The first loop (source lines 222 to 225) runs over a snapshot of the keys of the
  dictionary. Each key of a dictionary is visited once and is present when visited, so the
  \<open>None\<close> branch stands for a lookup that the source cannot miss.
\<close>

fun deleteDisappeared :: "string list \<Rightarrow> bool \<Rightarrow> string list \<Rightarrow> ui_state \<Rightarrow> ui_state" where
  "deleteDisappeared parameterNames startFromScratch [] s = s"
| "deleteDisappeared parameterNames startFromScratch (parameterName # ks) s =
     (if parameterName \<notin> set parameterNames \<or> startFromScratch then
        (case map_of (childUIs s) parameterName of
           None \<Rightarrow> deleteDisappeared parameterNames startFromScratch ks s
         | Some ui \<Rightarrow>
             deleteDisappeared parameterNames startFromScratch ks
               (s\<lparr>childUIs := AList.delete parameterName (childUIs s),
                  trace := trace s @ [DeleteUI (topLevelUI ui)]\<rparr>))
      else deleteDisappeared parameterNames startFromScratch ks s)"

text \<open>
  One iteration of the second loop up to the layout attachments (source lines 238 to 253):
  look the widget up, delete it when its class name or version differs, and build a new
  one when there is none (left). The construction
  \<^verbatim>\<open>ChildUI( self.parameter[parameterName], **self.__kw )\<close> is taken to succeed, as it does
  for the parameter names of the parameter's own class list; every list the source
  passes to \<^verbatim>\<open>__updateChildUIs\<close> is that list or a part of it.
\<close>

definition reuseOrDelete :: "classEntry \<Rightarrow> ui_state \<Rightarrow> childUI option \<times> ui_state" where
  "reuseOrDelete c s =
     (case c of (parameterName, cn, cv) \<Rightarrow>
        (case map_of (childUIs s) parameterName of
           None \<Rightarrow> (None, s)
         | Some ui \<Rightarrow>
             if className ui \<noteq> cn \<or> classVersion ui \<noteq> cv
             then (None, s\<lparr>trace := trace s @ [DeleteUI (topLevelUI ui)]\<rparr>)
             else (Some ui, s)))"

definition childFor :: "classEntry \<Rightarrow> ui_state \<Rightarrow> childUI \<times> ui_state" where
  "childFor c s =
     (case c of (parameterName, cn, cv) \<Rightarrow>
        (case reuseOrDelete c s of
           (Some ui, s1) \<Rightarrow> (ui, s1)
         | (None, s1) \<Rightarrow>
             (let ui = \<lparr>topLevelUI = nextUI s1, className = cn, classVersion = cv\<rparr>
              in (ui, s1\<lparr>childUIs := AList.update parameterName ui (childUIs s1),
                         nextUI := Suc (nextUI s1),
                         trace := trace s1 @ [CreateUI (topLevelUI ui) parameterName]\<rparr>))))"

text \<open>
  The second loop (source lines 236 to 267). The result lists the handles of the children
  in the order they are attached, top to bottom.
\<close>

fun attachChildren :: "classEntry list \<Rightarrow> ui_state \<Rightarrow> nat list \<times> ui_state" where
  "attachChildren [] s = ([], s)"
| "attachChildren (c # cs) s =
     (case childFor c s of (ui, s1) \<Rightarrow>
        (case attachChildren cs s1 of (below, s2) \<Rightarrow> (topLevelUI ui # below, s2)))"

text \<open>
  The default of the argument (source lines 216 and 217): Python's \<^verbatim>\<open>None\<close> reads the
  list from the parameter, any list, also the empty one, is taken as it is.
\<close>

definition givenClasses :: "classEntry list option \<Rightarrow> ui_state \<Rightarrow> classEntry list" where
  "givenClasses classesArg s = (case classesArg of None \<Rightarrow> classes s | Some given \<Rightarrow> given)"

definition updateChildUIs :: "classEntry list option \<Rightarrow> bool \<Rightarrow> ui_state \<Rightarrow> ui_state" where
  "updateChildUIs classesArg startFromScratch s =
     (let cs = givenClasses classesArg s;
          s1 = deleteDisappeared (map fst cs) startFromScratch (map fst (childUIs s)) s
      in (case attachChildren cs s1 of
            (attached, s2) \<Rightarrow> s2\<lparr>trace := trace s2 @ [FormLayoutEdit attached]\<rparr>))"

text \<open>
  \<^verbatim>\<open>_classesSetCallback\<close> for one instance: \<open>same\<close> is the result of
  \<^verbatim>\<open>instance.parameter.isSame( parameter )\<close>.
\<close>

definition classesSetCallback :: "bool \<Rightarrow> ui_state \<Rightarrow> ui_state" where
  "classesSetCallback same s = (if same then updateChildUIs None False s else s)"

section \<open>Mutations of the class list\<close>

text \<open>
  Modelled from the spec: \<^verbatim>\<open>FnParameterisedHolder.setClassVectorParameterClasses\<close> is
  code of the host facade, absent from the source file. The spec's step 3, "Commit the
  mutation through the host facade", is the store of the list as the parameter's class
  list; the call is recorded in the trace. The "classes changed" callback of step 4 is
  the separate function \<open>classesSetCallback\<close>.
\<close>

definition setClassVectorParameterClasses :: "classEntry list \<Rightarrow> ui_state \<Rightarrow> ui_state" where
  "setClassVectorParameterClasses cs s = s\<lparr>classes := cs, trace := trace s @ [SetClasses cs]\<rparr>"

definition removeClass :: "string \<Rightarrow> ui_state \<Rightarrow> ui_state" where
  "removeClass parameterName s =
     (let cs = filter (\<lambda>c. fst c \<noteq> parameterName) (classes s);
          s1 = updateChildUIs (Some cs) False s
      in setClassVectorParameterClasses cs s1)"

text \<open>\<^verbatim>\<open>"%d" % i\<close> for a natural number, and \<^verbatim>\<open>"p%d" % i\<close>.\<close>

fun format_d :: "nat \<Rightarrow> string" where
  "format_d n =
     (if n < 10 then [char_of (48 + n)]
      else format_d (n div 10) @ [char_of (48 + n mod 10)])"

declare format_d.simps [simp del]

definition pName :: "nat \<Rightarrow> string" where
  "pName i = ''p'' @ format_d i"

text \<open>
  The search for an unused name (source lines 196 to 199): \<open>cur\<close> is the value of
  \<^verbatim>\<open>parameterName\<close> when the loop is left, by \<^verbatim>\<open>break\<close> or at the end of the range.
\<close>

fun newParameterName :: "string list \<Rightarrow> nat list \<Rightarrow> string \<Rightarrow> string" where
  "newParameterName parameterNames [] cur = cur"
| "newParameterName parameterNames (i # is) cur =
     (if pName i \<notin> set parameterNames then pName i
      else newParameterName parameterNames is (pName i))"

text \<open>
  The search for the entry to replace (source lines 185 to 189): the index at the
  \<^verbatim>\<open>break\<close>, or \<open>None\<close> when \<^verbatim>\<open>foundParameter\<close> stays false.
\<close>

fun findParameter :: "string \<Rightarrow> classEntry list \<Rightarrow> nat \<Rightarrow> nat option" where
  "findParameter parameterName [] i = None"
| "findParameter parameterName (c # cs) i =
     (if fst c = parameterName then Some i else findParameter parameterName cs (Suc i))"

definition notPresent :: "string \<Rightarrow> error" where
  "notPresent parameterName =
     RuntimeError (''Parameter '' @ [CHR 0x22] @ parameterName @ [CHR 0x22] @ '' not present'')"

text \<open>
  \<^verbatim>\<open>_setClass\<close>. The parameter name is \<open>None\<close> for Python's \<^verbatim>\<open>None\<close>; the test
  \<^verbatim>\<open>if parameterName\<close> is false for \<^verbatim>\<open>None\<close> and for the empty string. The result pairs
  the exception raised, if any, with the state left behind.
\<close>

definition appendClass :: "string \<Rightarrow> int \<Rightarrow> ui_state \<Rightarrow> error option \<times> ui_state" where
  "appendClass cn cv s1 =
     (let cs = classes s1;
          parameterName = newParameterName (map fst cs) [0 ..< length cs + 1] []
      in (None, setClassVectorParameterClasses (cs @ [(parameterName, cn, cv)]) s1))"

definition setClass :: "string option \<Rightarrow> string \<Rightarrow> int \<Rightarrow> ui_state \<Rightarrow> error option \<times> ui_state" where
  "setClass parameterName cn cv s =
     (let classesWithoutThis = filter (\<lambda>c. Some (fst c) \<noteq> parameterName) (classes s);
          s1 = updateChildUIs (Some classesWithoutThis) False s;
          cs = classes s1
      in (case parameterName of
            None \<Rightarrow> appendClass cn cv s1
          | Some pn \<Rightarrow>
              if pn \<noteq> [] then
                (case findParameter pn cs 0 of
                   None \<Rightarrow> (Some (notPresent pn), s1)
                 | Some i \<Rightarrow> (None, setClassVectorParameterClasses (cs[i := (pn, cn, cv)]) s1))
              else appendClass cn cv s1))"

text \<open>
  \<^verbatim>\<open>__moveLayer\<close>. \<^verbatim>\<open>classes[oldIndex]\<close> and \<^verbatim>\<open>del classes[oldIndex]\<close> count a negative
  index from the end and raise IndexError out of range; the slice assignment
  \<^verbatim>\<open>classes[newIndex:newIndex] = [ cl ]\<close> clamps its index to the list.
\<close>

definition itemIndex :: "int \<Rightarrow> nat \<Rightarrow> nat option" where
  "itemIndex i n =
     (let j = (if i < 0 then int n + i else i)
      in if 0 \<le> j \<and> j < int n then Some (nat j) else None)"

definition sliceIndex :: "int \<Rightarrow> nat \<Rightarrow> nat" where
  "sliceIndex i n =
     (if i < 0 then nat (max 0 (int n + i)) else nat (min i (int n)))"

definition moveLayer :: "int \<Rightarrow> int \<Rightarrow> ui_state \<Rightarrow> error option \<times> ui_state" where
  "moveLayer oldIndex newIndex s =
     (let cs = classes s
      in (case itemIndex oldIndex (length cs) of
            None \<Rightarrow> (Some IndexError, s)
          | Some k \<Rightarrow>
              (let cl = cs ! k;
                   without = take k cs @ drop (Suc k) cs;
                   j = sliceIndex newIndex (length without);
                   moved = take j without @ [cl] @ drop j without
               in (None, setClassVectorParameterClasses moved s))))"


text \<open>
  One addition as the user makes it from the menu of the add button: \<^verbatim>\<open>_setClass\<close>
  with no parameter name, then the host's "classes changed" callback on this instance.
\<close>

definition addClass :: "string \<times> int \<Rightarrow> ui_state \<Rightarrow> ui_state" where
  "addClass c s = classesSetCallback True (snd (setClass None (fst c) (snd c) s))"

fun addClasses :: "(string \<times> int) list \<Rightarrow> ui_state \<Rightarrow> ui_state" where
  "addClasses [] s = s"
| "addClasses (c # cs) s = addClasses cs (addClass c s)"

section \<open>The header of a child: \<^verbatim>\<open>__attributeChanged\<close>\<close>

text \<open>
  The two parallel lists of a \<^verbatim>\<open>ChildUI\<close>, \<^verbatim>\<open>__presetParameters\<close> (parameters named by
  strings) and \<^verbatim>\<open>__presetUIs\<close> (widget handles), and the label edits made so far
  (\<^verbatim>\<open>maya.cmds.iconTextStaticLabel( ui, edit=True, label=... )\<close>).
\<close>

record header_state =
  presetParameters :: "string list"
  presetUIs :: "nat list"
  labelEdits :: "(nat \<times> string) list"

text \<open>
  \<^verbatim>\<open>__updatePresetLabel\<close>; \<open>getCurrentPresetName\<close> is the host's method of that name.
\<close>

definition updatePresetLabel ::
  "(string \<Rightarrow> string) \<Rightarrow> nat \<Rightarrow> header_state \<Rightarrow> error option \<times> header_state" where
  "updatePresetLabel getCurrentPresetName index h =
     (if index < length (presetUIs h) \<and> index < length (presetParameters h)
      then (None, h\<lparr>labelEdits := labelEdits h @
                      [(presetUIs h ! index, getCurrentPresetName (presetParameters h ! index))]\<rparr>)
      else (Some IndexError, h))"

text \<open>
  The loop of \<^verbatim>\<open>__attributeChanged\<close> over \<^verbatim>\<open>enumerate( self.__presetParameters )\<close>.
  \<open>parameterPlug\<close> is \<^verbatim>\<open>fnPH.parameterPlug\<close>, with \<open>Inl\<close> for an exception raised by it;
  the bare \<^verbatim>\<open>except\<close> turns any of them into \<^verbatim>\<open>continue\<close>.
\<close>

fun presetLoop ::
  "(string \<Rightarrow> error + nat) \<Rightarrow> (string \<Rightarrow> string) \<Rightarrow> nat \<Rightarrow> (nat \<times> string) list
     \<Rightarrow> header_state \<Rightarrow> error option \<times> header_state" where
  "presetLoop parameterPlug getCurrentPresetName plug [] h = (None, h)"
| "presetLoop parameterPlug getCurrentPresetName plug ((index, parameter) # rest) h =
     (case parameterPlug parameter of
        Inl e \<Rightarrow> presetLoop parameterPlug getCurrentPresetName plug rest h
      | Inr myPlug \<Rightarrow>
          if plug = myPlug then
            (case updatePresetLabel getCurrentPresetName index h of
               (Some e, h1) \<Rightarrow> (Some e, h1)
             | (None, h1) \<Rightarrow> presetLoop parameterPlug getCurrentPresetName plug rest h1)
          else presetLoop parameterPlug getCurrentPresetName plug rest h)"

text \<open>
  \<^verbatim>\<open>__attributeChanged( changeType, plug, otherPlug, userData )\<close>; the last two arguments
  are not read. \<open>kAttributeSet\<close> is the host's constant
  \<^verbatim>\<open>maya.OpenMaya.MNodeMessage.kAttributeSet\<close>.
\<close>

definition attributeChanged ::
  "int \<Rightarrow> (string \<Rightarrow> error + nat) \<Rightarrow> (string \<Rightarrow> string) \<Rightarrow> int \<Rightarrow> nat
     \<Rightarrow> header_state \<Rightarrow> error option \<times> header_state" where
  "attributeChanged kAttributeSet parameterPlug getCurrentPresetName changeType plug h =
     (if changeType AND kAttributeSet = 0 then (None, h)
      else presetLoop parameterPlug getCurrentPresetName plug
             (enumerate 0 (presetParameters h)) h)"

section \<open>User data with defaults\<close>

text \<open>
  The user data of a parameter is a compound object of named data; the entries read here
  are \<^verbatim>\<open>BoolData\<close> and \<^verbatim>\<open>StringData\<close> below the compound \<^verbatim>\<open>"UI"\<close>.
\<close>

datatype data =
    BoolData bool
  | StringData string
  | CompoundData "(string \<times> data) list"

datatype pyvalue = PyBool bool | PyStr string

text \<open>\<^verbatim>\<open>d[key]\<close>: KeyError for a missing key, TypeError on data that is not compound.\<close>

definition getitem :: "data \<Rightarrow> string \<Rightarrow> error + data" where
  "getitem d key =
     (case d of
        CompoundData members \<Rightarrow>
          (case map_of members key of None \<Rightarrow> Inl (KeyError key) | Some v \<Rightarrow> Inr v)
      | _ \<Rightarrow> Inl TypeError)"

text \<open>\<^verbatim>\<open>d.value\<close>: compound data has no such attribute.\<close>

definition dataValue :: "data \<Rightarrow> error + pyvalue" where
  "dataValue d =
     (case d of
        BoolData b \<Rightarrow> Inr (PyBool b)
      | StringData s \<Rightarrow> Inr (PyStr s)
      | CompoundData members \<Rightarrow> Inl AttributeError)"

text \<open>\<^verbatim>\<open>parameter.userData()["UI"][key].value\<close>\<close>

definition userDataUI :: "(string \<times> data) list \<Rightarrow> string \<Rightarrow> error + pyvalue" where
  "userDataUI userData key =
     (case getitem (CompoundData userData) ''UI'' of
        Inl e \<Rightarrow> Inl e
      | Inr ui \<Rightarrow> (case getitem ui key of Inl e \<Rightarrow> Inl e | Inr d \<Rightarrow> dataValue d))"

text \<open>
  An assignment inside \<^verbatim>\<open>with IECore.IgnoredExceptions( KeyError )\<close>: a KeyError leaves the
  variable at its earlier value, any other exception goes on.
\<close>

definition ignoringKeyError :: "'a \<Rightarrow> error + 'a \<Rightarrow> error + 'a" where
  "ignoringKeyError earlier r =
     (case r of
        Inr v \<Rightarrow> Inr v
      | Inl (KeyError k) \<Rightarrow> Inr earlier
      | Inl e \<Rightarrow> Inl e)"

text \<open>The value of \<^verbatim>\<open>collapsable\<close> in \<^verbatim>\<open>__init__\<close> (source lines 73 to 75).\<close>

definition collapsable :: "(string \<times> data) list \<Rightarrow> error + pyvalue" where
  "collapsable userData = ignoringKeyError (PyBool True) (userDataUI userData ''collapsable'')"

text \<open>
  The value of \<^verbatim>\<open>classNameFilter\<close> in \<^verbatim>\<open>__classMenuDefinition\<close> (source lines 129 to
  133), under a bare \<^verbatim>\<open>except\<close>.
\<close>

definition classNameFilter :: "(string \<times> data) list \<Rightarrow> error + pyvalue" where
  "classNameFilter userData =
     (case userDataUI userData ''classNameFilter'' of
        Inr v \<Rightarrow> Inr v
      | Inl e \<Rightarrow> Inr (PyStr ''*''))"

text \<open>
  The value of \<^verbatim>\<open>forHeader\<close> in \<^verbatim>\<open>__drawHeaderParameterControls\<close> (source lines 588 to
  590) for one parameter.
\<close>

definition forHeader :: "(string \<times> data) list \<Rightarrow> string \<Rightarrow> error + pyvalue" where
  "forHeader userData uiKey = ignoringKeyError (PyBool False) (userDataUI userData uiKey)"

section \<open>Notions used in the statements\<close>

text \<open>The child built by \<^verbatim>\<open>ChildUI( ... )\<close> in state \<open>s\<close> for a class name and version.\<close>

definition newChild :: "string \<Rightarrow> int \<Rightarrow> ui_state \<Rightarrow> childUI" where
  "newChild cn cv s = \<lparr>topLevelUI = nextUI s, className = cn, classVersion = cv\<rparr>"

text \<open>The state of \<^verbatim>\<open>__updateChildUIs\<close> between its two loops.\<close>

definition afterDelete :: "classEntry list option \<Rightarrow> bool \<Rightarrow> ui_state \<Rightarrow> ui_state" where
  "afterDelete classesArg b s =
     deleteDisappeared (map fst (givenClasses classesArg s)) b (map fst (childUIs s)) s"

text \<open>Every entry of the list has a widget of its class name and version.\<close>

definition synced :: "classEntry list \<Rightarrow> ui_state \<Rightarrow> bool" where
  "synced cs s \<longleftrightarrow>
     list_all (\<lambda>c. case map_of (childUIs s) (fst c) of
        None \<Rightarrow> False
      | Some ui \<Rightarrow> className ui = fst (snd c) \<and> classVersion ui = snd (snd c)) cs"

text \<open>
  What the host guarantees of widget handles: two widgets of the registry have different
  handles, and every handle in use is below the next one handed out.
\<close>

definition handlesOk :: "ui_state \<Rightarrow> bool" where
  "handlesOk s \<longleftrightarrow>
     distinct (map (\<lambda>p. topLevelUI (snd p)) (childUIs s)) \<and>
     list_all (\<lambda>p. topLevelUI (snd p) < nextUI s) (childUIs s)"

definition isCommit :: "event \<Rightarrow> bool" where
  "isCommit e = (case e of SetClasses cs \<Rightarrow> True | _ \<Rightarrow> False)"

text \<open>
  Two states used to run the theorems on concrete input: a widget on a parameter with
  the one class entry \<open>p0\<close> and a registry in step with it, and the same with a registry
  that still holds a child for a name \<open>gone\<close> that the list no longer has.
\<close>

definition syncedState :: ui_state where
  "syncedState =
     \<lparr>classes = [(''p0'', ''A'', 1)],
      childUIs = [(''p0'', \<lparr>topLevelUI = 0, className = ''A'', classVersion = 1\<rparr>)],
      nextUI = 1,
      trace = []\<rparr>"

definition staleState :: ui_state where
  "staleState =
     \<lparr>classes = [(''p0'', ''A'', 1)],
      childUIs = [(''p0'', \<lparr>topLevelUI = 0, className = ''A'', classVersion = 1\<rparr>),
                  (''gone'', \<lparr>topLevelUI = 1, className = ''B'', classVersion = 2\<rparr>)],
      nextUI = 2,
      trace = []\<rparr>"

text \<open>
  A key of the \<^verbatim>\<open>"UI"\<close> user data is missing: there is no \<^verbatim>\<open>"UI"\<close> entry, or it is a
  compound without the key.
\<close>

definition keyMissing :: "(string \<times> data) list \<Rightarrow> string \<Rightarrow> bool" where
  "keyMissing userData key =
     (case map_of userData ''UI'' of
        None \<Rightarrow> True
      | Some (CompoundData members) \<Rightarrow> map_of members key = None
      | Some other \<Rightarrow> False)"

text \<open>The number a string of decimal digits stands for.\<close>

definition digitsValue :: "string \<Rightarrow> nat" where
  "digitsValue ds = foldl (\<lambda>a c. 10 * a + (of_char c - 48)) 0 ds"

text \<open>
  The class list and the registry are in step: no parameter name twice in either, and
  the same names in both.
\<close>

definition inStep :: "ui_state \<Rightarrow> bool" where
  "inStep s \<longleftrightarrow>
     distinct (map fst (classes s)) \<and> distinct (map fst (childUIs s)) \<and>
     set (map fst (childUIs s)) = set (map fst (classes s))"

text \<open>The state of a widget just built on a parameter without classes.\<close>

definition emptyState :: ui_state where
  "emptyState = \<lparr>classes = [], childUIs = [], nextUI = 0, trace = []\<rparr>"

text \<open>The host calls made between a state and a later one.\<close>

definition eventsSince :: "ui_state \<Rightarrow> ui_state \<Rightarrow> event list" where
  "eventsSince s s' = drop (length (trace s)) (trace s')"

text \<open>A deletion or a construction of a child widget.\<close>

definition isWidgetEvent :: "event \<Rightarrow> bool" where
  "isWidgetEvent e = (case e of DeleteUI h \<Rightarrow> True | CreateUI h n \<Rightarrow> True | _ \<Rightarrow> False)"

section \<open>Facts about the two loops of the reconciliation\<close>


lemma dd_classes [simp]: "classes (deleteDisappeared ns b ks s) = classes s"
  by (induction ks arbitrary: s) (auto split: option.splits)

lemma dd_nextUI [simp]: "nextUI (deleteDisappeared ns b ks s) = nextUI s"
  by (induction ks arbitrary: s) (auto split: option.splits)

lemma delete_absent: "map_of al k = None \<Longrightarrow> filter (\<lambda>p. fst p \<noteq> k) al = al"
  by (induction al) (auto split: if_splits)

lemma dd_childUIs:
  "childUIs (deleteDisappeared ns b ks s) =
     filter (\<lambda>p. fst p \<in> set ks \<longrightarrow> fst p \<in> set ns \<and> \<not> b) (childUIs s)"
proof (induction ks arbitrary: s)
  case Nil
  show ?case by simp
next
  case (Cons k ks)
  show ?case
  proof (cases "k \<notin> set ns \<or> b")
    case False
    then show ?thesis using Cons.IH [of s] by (auto intro: filter_cong)
  next
    case True
    note del = True
    show ?thesis
    proof (cases "map_of (childUIs s) k")
      case None
      have "filter (\<lambda>p. fst p \<noteq> k) (childUIs s) = childUIs s"
        by (rule delete_absent [OF None])
      then have "filter (\<lambda>p. fst p \<in> set ks \<longrightarrow> fst p \<in> set ns \<and> \<not> b) (childUIs s)
          = filter (\<lambda>p. fst p \<in> set ks \<longrightarrow> fst p \<in> set ns \<and> \<not> b) (filter (\<lambda>p. fst p \<noteq> k) (childUIs s))"
        by simp
      also have "\<dots> = filter (\<lambda>p. fst p \<in> set (k # ks) \<longrightarrow> fst p \<in> set ns \<and> \<not> b) (childUIs s)"
        using del by (auto intro: filter_cong)
      finally show ?thesis using del None Cons.IH [of s] by simp
    next
      case (Some ui)
      show ?thesis using del Some
        by (simp add: Cons.IH AList.delete_eq) (auto intro: filter_cong)
    qed
  qed
qed

lemma dd_noop: "\<not> b \<Longrightarrow> set ks \<subseteq> set ns \<Longrightarrow> deleteDisappeared ns b ks s = s"
  by (induction ks arbitrary: s) auto

lemma dd_trace:
  "\<exists>ev. trace (deleteDisappeared ns b ks s) = trace s @ ev \<and>
        (\<forall>e. e \<in> set ev \<longleftrightarrow> (\<exists>k ui. e = DeleteUI (topLevelUI ui) \<and>
                    k \<in> set ks \<and> (k \<notin> set ns \<or> b) \<and> map_of (childUIs s) k = Some ui))"
proof (induction ks arbitrary: s)
  case Nil
  show ?case by simp
next
  case (Cons k ks)
  show ?case
  proof (cases "(k \<notin> set ns \<or> b) \<and> map_of (childUIs s) k \<noteq> None")
    case False
    obtain ev where ev: "trace (deleteDisappeared ns b ks s) = trace s @ ev"
      "\<forall>e. e \<in> set ev \<longleftrightarrow> (\<exists>k ui. e = DeleteUI (topLevelUI ui) \<and>
                    k \<in> set ks \<and> (k \<notin> set ns \<or> b) \<and> map_of (childUIs s) k = Some ui)"
      using Cons.IH [of s] by blast
    have same: "deleteDisappeared ns b (k # ks) s = deleteDisappeared ns b ks s"
      using False by (auto split: option.splits)
    have "\<forall>e. e \<in> set ev \<longleftrightarrow> (\<exists>k' ui. e = DeleteUI (topLevelUI ui) \<and>
                    k' \<in> set (k # ks) \<and> (k' \<notin> set ns \<or> b) \<and> map_of (childUIs s) k' = Some ui)"
      using False by (simp add: ev(2)) (metis option.discI)
    then show ?thesis unfolding same using ev(1) by blast
  next
    case True
    then obtain ui where ui: "map_of (childUIs s) k = Some ui" and del: "k \<notin> set ns \<or> b"
      by auto
    define s1 where "s1 = s\<lparr>childUIs := AList.delete k (childUIs s),
                  trace := trace s @ [DeleteUI (topLevelUI ui)]\<rparr>"
    obtain ev where ev: "trace (deleteDisappeared ns b ks s1) = trace s1 @ ev"
      "\<forall>e. e \<in> set ev \<longleftrightarrow> (\<exists>k ui. e = DeleteUI (topLevelUI ui) \<and>
                    k \<in> set ks \<and> (k \<notin> set ns \<or> b) \<and> map_of (childUIs s1) k = Some ui)"
      using Cons.IH [of s1] by blast
    have step: "deleteDisappeared ns b (k # ks) s = deleteDisappeared ns b ks s1"
      using ui del by (simp add: s1_def)
    have m: "map_of (childUIs s1) k' = (if k' = k then None else map_of (childUIs s) k')" for k'
      by (simp add: s1_def AList.delete_conv')
    have "e \<in> set (DeleteUI (topLevelUI ui) # ev) \<longleftrightarrow> (\<exists>k' ui. e = DeleteUI (topLevelUI ui) \<and>
                    k' \<in> set (k # ks) \<and> (k' \<notin> set ns \<or> b) \<and> map_of (childUIs s) k' = Some ui)"
      (is "?L \<longleftrightarrow> ?R") for e
    proof
      assume ?L
      then consider "e = DeleteUI (topLevelUI ui)" | "e \<in> set ev" by auto
      then show ?R
      proof cases
        case 1
        then show ?thesis using ui del by auto
      next
        case 2
        then obtain k' ui' where "e = DeleteUI (topLevelUI ui')" "k' \<in> set ks"
          "k' \<notin> set ns \<or> b" "map_of (childUIs s1) k' = Some ui'"
          using ev(2) by blast
        then show ?thesis using m [of k'] by (auto split: if_splits)
      qed
    next
      assume ?R
      then obtain k' ui' where r: "e = DeleteUI (topLevelUI ui')" "k' \<in> set (k # ks)"
          "k' \<notin> set ns \<or> b" "map_of (childUIs s) k' = Some ui'"
        by blast
      show ?L
      proof (cases "k' = k")
        case True
        then show ?thesis using r ui by simp
      next
        case False
        then have "k' \<in> set ks" "map_of (childUIs s1) k' = Some ui'"
          using r m [of k'] by auto
        then have "e \<in> set ev" using ev(2) r by blast
        then show ?thesis by simp
      qed
    qed
    moreover have "trace (deleteDisappeared ns b (k # ks) s) = trace s @ DeleteUI (topLevelUI ui) # ev"
      unfolding step ev(1) by (simp add: s1_def)
    ultimately show ?thesis by blast
  qed
qed


lemma childFor_reuse:
  "map_of (childUIs s) n = Some ui \<Longrightarrow> className ui = cn \<Longrightarrow> classVersion ui = cv \<Longrightarrow>
   childFor (n, cn, cv) s = (ui, s)"
  by (simp add: childFor_def reuseOrDelete_def)

lemma childFor_new:
  "map_of (childUIs s) n = None \<Longrightarrow>
   childFor (n, cn, cv) s =
     (newChild cn cv s,
      s\<lparr>childUIs := AList.update n (newChild cn cv s) (childUIs s),
        nextUI := Suc (nextUI s),
        trace := trace s @ [CreateUI (nextUI s) n]\<rparr>)"
  by (simp add: childFor_def reuseOrDelete_def newChild_def Let_def)

lemma childFor_rebuild:
  "map_of (childUIs s) n = Some ui \<Longrightarrow> className ui \<noteq> cn \<or> classVersion ui \<noteq> cv \<Longrightarrow>
   childFor (n, cn, cv) s =
     (newChild cn cv s,
      s\<lparr>childUIs := AList.update n (newChild cn cv s) (childUIs s),
        nextUI := Suc (nextUI s),
        trace := trace s @ [DeleteUI (topLevelUI ui), CreateUI (nextUI s) n]\<rparr>)"
  by (auto simp add: childFor_def reuseOrDelete_def newChild_def Let_def)

lemma childFor_cases:
  obtains (reuse) ui where "map_of (childUIs s) n = Some ui" "className ui = cn" "classVersion ui = cv"
  | (new) "map_of (childUIs s) n = None"
  | (rebuild) ui where "map_of (childUIs s) n = Some ui" "className ui \<noteq> cn \<or> classVersion ui \<noteq> cv"
  by (cases "map_of (childUIs s) n") auto

lemma childFor_classes [simp]: "classes (snd (childFor c s)) = classes s"
proof -
  obtain n cn cv where c: "c = (n, cn, cv)" by (cases c)
  show ?thesis unfolding c
    by (cases rule: childFor_cases [of s n cn cv])
       (simp_all add: childFor_reuse childFor_new childFor_rebuild)
qed

lemma childFor_nextUI: "nextUI s \<le> nextUI (snd (childFor c s))"
proof -
  obtain n cn cv where c: "c = (n, cn, cv)" by (cases c)
  show ?thesis unfolding c
    by (cases rule: childFor_cases [of s n cn cv])
       (simp_all add: childFor_reuse childFor_new childFor_rebuild)
qed

lemma childFor_map_of:
  "map_of (childUIs (snd (childFor (n, cn, cv) s))) =
     (map_of (childUIs s))(n \<mapsto> fst (childFor (n, cn, cv) s))"
  by (cases rule: childFor_cases [of s n cn cv])
     (auto simp add: childFor_reuse childFor_new childFor_rebuild AList.update_conv')

lemma childFor_class:
  "className (fst (childFor (n, cn, cv) s)) = cn \<and> classVersion (fst (childFor (n, cn, cv) s)) = cv"
  by (cases rule: childFor_cases [of s n cn cv])
     (auto simp add: childFor_reuse childFor_new childFor_rebuild newChild_def)

lemma childFor_keys:
  "fst ` set (childUIs (snd (childFor (n, cn, cv) s))) = insert n (fst ` set (childUIs s))"
proof -
  have "dom (map_of (childUIs (snd (childFor (n, cn, cv) s)))) = insert n (dom (map_of (childUIs s)))"
    unfolding childFor_map_of by simp
  then show ?thesis by (simp add: dom_map_of_conv_image_fst)
qed

lemma ac_Cons:
  "snd (attachChildren (c # cs) s) = snd (attachChildren cs (snd (childFor c s)))"
  by (simp split: prod.splits)

lemma ac_classes [simp]: "classes (snd (attachChildren cs s)) = classes s"
  by (induction cs arbitrary: s) (simp_all add: ac_Cons del: attachChildren.simps(2))

lemma ac_nextUI: "nextUI s \<le> nextUI (snd (attachChildren cs s))"
proof (induction cs arbitrary: s)
  case Nil
  show ?case by simp
next
  case (Cons c cs)
  show ?case unfolding ac_Cons
    using Cons.IH [of "snd (childFor c s)"] childFor_nextUI [of s c] by linarith
qed

lemma ac_keys:
  "fst ` set (childUIs (snd (attachChildren cs s))) = fst ` set (childUIs s) \<union> fst ` set cs"
proof (induction cs arbitrary: s)
  case Nil
  show ?case by simp
next
  case (Cons c cs)
  obtain n cn cv where c: "c = (n, cn, cv)" by (cases c)
  show ?case unfolding ac_Cons Cons.IH c childFor_keys by auto
qed

lemma ac_frame:
  "n \<notin> fst ` set cs \<Longrightarrow>
   map_of (childUIs (snd (attachChildren cs s))) n = map_of (childUIs s) n"
proof (induction cs arbitrary: s)
  case Nil
  show ?case by simp
next
  case (Cons c cs)
  obtain n' cn cv where c: "c = (n', cn, cv)" by (cases c)
  have "n \<noteq> n'" "n \<notin> fst ` set cs" using Cons.prems c by auto
  then show ?case unfolding ac_Cons c
    using Cons.IH [of "snd (childFor (n', cn, cv) s)"] by (simp add: childFor_map_of)
qed

lemma ac_synced:
  "distinct (map fst cs) \<Longrightarrow> (n, cn, cv) \<in> set cs \<Longrightarrow>
   \<exists>ui. map_of (childUIs (snd (attachChildren cs s))) n = Some ui \<and>
        className ui = cn \<and> classVersion ui = cv"
proof (induction cs arbitrary: s)
  case Nil
  then show ?case by simp
next
  case (Cons c cs)
  obtain n' cn' cv' where c: "c = (n', cn', cv')" by (cases c)
  show ?case
  proof (cases "(n, cn, cv) = c")
    case True
    then have "n \<notin> fst ` set cs" using Cons.prems(1) by force
    then show ?thesis unfolding ac_Cons
      using True c childFor_class [of n cn cv s]
      by (simp add: ac_frame childFor_map_of)
  next
    case False
    then have "(n, cn, cv) \<in> set cs" using Cons.prems(2) by simp
    then show ?thesis unfolding ac_Cons
      using Cons.IH [of "snd (childFor c s)"] Cons.prems(1) by simp
  qed
qed

lemma ac_noop:
  "synced cs s \<Longrightarrow> snd (attachChildren cs s) = s"
proof (induction cs)
  case Nil
  show ?case by simp
next
  case (Cons c cs)
  obtain n cn cv where c: "c = (n, cn, cv)" by (cases c)
  obtain ui where "map_of (childUIs s) n = Some ui" "className ui = cn" "classVersion ui = cv"
    using Cons.prems c by (auto simp: synced_def split: option.splits)
  then have "childFor c s = (ui, s)" unfolding c by (rule childFor_reuse)
  moreover have "synced cs s" using Cons.prems by (simp add: synced_def)
  ultimately show ?case unfolding ac_Cons using Cons.IH by simp
qed


lemma update_unfold:
  "updateChildUIs classesArg b s =
     (snd (attachChildren (givenClasses classesArg s) (afterDelete classesArg b s)))
       \<lparr>trace := trace (snd (attachChildren (givenClasses classesArg s) (afterDelete classesArg b s)))
                 @ [FormLayoutEdit (fst (attachChildren (givenClasses classesArg s) (afterDelete classesArg b s)))]\<rparr>"
  by (simp add: updateChildUIs_def givenClasses_def afterDelete_def Let_def split: prod.splits)

lemma update_classes [simp]: "classes (updateChildUIs classesArg b s) = classes s"
  by (simp add: update_unfold afterDelete_def)

lemma update_childUIs:
  "childUIs (updateChildUIs classesArg b s) =
     childUIs (snd (attachChildren (givenClasses classesArg s) (afterDelete classesArg b s)))"
  by (simp add: update_unfold)

lemma afterDelete_childUIs:
  "childUIs (afterDelete classesArg b s) =
     filter (\<lambda>p. fst p \<in> fst ` set (givenClasses classesArg s) \<and> \<not> b) (childUIs s)"
  unfolding afterDelete_def dd_childUIs by (rule filter_cong) auto

lemma update_keys:
  "set (map fst (childUIs (updateChildUIs classesArg startFromScratch s))) =
     set (map fst (givenClasses classesArg s))"
proof -
  have "fst ` set (childUIs (updateChildUIs classesArg startFromScratch s)) =
          fst ` set (givenClasses classesArg s)"
    unfolding update_childUIs ac_keys afterDelete_childUIs by auto
  then show ?thesis by simp
qed

lemma update_synced:
  assumes "distinct (map fst (givenClasses classesArg s))"
  shows "synced (givenClasses classesArg s) (updateChildUIs classesArg b s)"
  unfolding synced_def list_all_iff
proof
  fix c assume c: "c \<in> set (givenClasses classesArg s)"
  obtain n cn cv where "c = (n, cn, cv)" by (cases c)
  then show "case map_of (childUIs (updateChildUIs classesArg b s)) (fst c) of
        None \<Rightarrow> False
      | Some ui \<Rightarrow> className ui = fst (snd c) \<and> classVersion ui = snd (snd c)"
    using ac_synced [OF assms, of n cn cv "afterDelete classesArg b s"] c
    by (auto simp add: update_childUIs)
qed

lemma update_noop:
  assumes "synced (givenClasses classesArg s) s"
    and "fst ` set (childUIs s) \<subseteq> fst ` set (givenClasses classesArg s)"
  shows "updateChildUIs classesArg False s =
           s\<lparr>trace := trace s @ [FormLayoutEdit (fst (attachChildren (givenClasses classesArg s) s))]\<rparr>"
proof -
  have "afterDelete classesArg False s = s"
    unfolding afterDelete_def using assms(2) by (intro dd_noop) auto
  then show ?thesis
    by (simp add: update_unfold ac_noop [OF assms(1)])
qed

section \<open>Facts about list moves, the header loop and user data\<close>

lemma itemIndex_Some:
  "- int n \<le> i \<Longrightarrow> i < int n \<Longrightarrow> \<exists>k < n. itemIndex i n = Some k"
  by (auto simp: itemIndex_def Let_def)

lemma mset_without:
  "k < length cs \<Longrightarrow> mset (take k cs @ drop (Suc k) cs) + {#cs ! k#} = mset cs"
proof -
  assume k: "k < length cs"
  have "cs = take k cs @ cs ! k # drop (Suc k) cs"
    using k by (simp add: id_take_nth_drop)
  then have "mset cs = mset (take k cs @ cs ! k # drop (Suc k) cs)" by simp
  then show ?thesis by simp
qed

lemma mset_insert_at:
  "mset (take j xs @ [x] @ drop j xs) = mset xs + {#x#}"
proof -
  have "mset (take j xs) + mset (drop j xs) = mset xs"
    by (metis append_take_drop_id mset_append)
  then show ?thesis by simp
qed

lemma presetLoop_result:
  assumes "\<forall>ip \<in> set ips. fst ip < length (presetUIs h) \<and> fst ip < length (presetParameters h)"
  shows "presetLoop parameterPlug gcpn plug ips h =
     (None, h\<lparr>labelEdits := labelEdits h @
        map (\<lambda>ip. (presetUIs h ! fst ip, gcpn (presetParameters h ! fst ip)))
            (filter (\<lambda>ip. parameterPlug (snd ip) = Inr plug) ips)\<rparr>)"
  using assms
proof (induction ips arbitrary: h)
  case Nil
  show ?case by simp
next
  case (Cons ip ips)
  obtain i p where ip: "ip = (i, p)" by (cases ip)
  have i: "i < length (presetUIs h)" "i < length (presetParameters h)"
    using Cons.prems ip by auto
  have rest: "\<forall>ip \<in> set ips. fst ip < length (presetUIs h) \<and> fst ip < length (presetParameters h)"
    using Cons.prems by simp
  show ?case
  proof (cases "parameterPlug p = Inr plug")
    case True
    define h1 where "h1 = h\<lparr>labelEdits := labelEdits h @ [(presetUIs h ! i, gcpn (presetParameters h ! i))]\<rparr>"
    have u: "updatePresetLabel gcpn i h = (None, h1)"
      using i by (simp add: updatePresetLabel_def h1_def)
    have "\<forall>ip \<in> set ips. fst ip < length (presetUIs h1) \<and> fst ip < length (presetParameters h1)"
      using rest by (simp add: h1_def)
    from Cons.IH [OF this] show ?thesis
      unfolding ip using True u by (simp add: h1_def)
  next
    case False
    then show ?thesis unfolding ip using Cons.IH [OF rest]
      by (auto split: sum.splits)
  qed
qed


lemma enumerate_nth:
  "enumerate 0 ps = map (\<lambda>i. (i, ps ! i)) [0 ..< length ps]"
  by (rule nth_equalityI) (simp_all add: nth_enumerate_eq)

lemma keyMissing_KeyError:
  "keyMissing userData key \<Longrightarrow> \<exists>k. userDataUI userData key = Inl (KeyError k)"
  by (auto simp: keyMissing_def userDataUI_def getitem_def split: option.splits data.splits)

section \<open>Facts about the generated parameter names and about additions\<close>

lemma digitsValue_snoc: "digitsValue (ds @ [c]) = 10 * digitsValue ds + (of_char c - 48)"
  by (simp add: digitsValue_def)

lemma digit_char: "d < 10 \<Longrightarrow> (of_char (char_of (48 + d)) :: nat) - 48 = d"
  by (simp add: of_char_of)

lemma digitsValue_format_d: "digitsValue (format_d n) = n"
proof (induction n rule: format_d.induct)
  case (1 n)
  show ?case
  proof (cases "n < 10")
    case True
    then show ?thesis
      using digit_char [of n] by (simp add: format_d.simps [of n] digitsValue_def)
  next
    case False
    have "n mod 10 < 10" by simp
    then have "(of_char (char_of (48 + n mod 10)) :: nat) - 48 = n mod 10"
      by (rule digit_char)
    then show ?thesis
      using False "1.IH" by (simp add: format_d.simps [of n] digitsValue_snoc)
  qed
qed

lemma format_d_inj: "format_d a = format_d b \<Longrightarrow> a = b"
  by (metis digitsValue_format_d)

lemma pName_inj: "inj pName"
  by (rule injI) (simp add: pName_def format_d_inj)

lemma unused_exists:
  assumes "length ns \<le> n"
  shows "\<exists>i \<le> n. pName i \<notin> set ns"
proof (rule ccontr)
  assume "\<not> (\<exists>i \<le> n. pName i \<notin> set ns)"
  then have sub: "pName ` {..n} \<subseteq> set ns" by auto
  have "card (pName ` {..n}) = Suc n"
    using pName_inj by (simp add: card_image inj_on_def inj_def)
  moreover have "card (pName ` {..n}) \<le> card (set ns)"
    using sub by (simp add: card_mono)
  moreover have "card (set ns) \<le> length ns" by (rule card_length)
  ultimately show False using assms by linarith
qed

lemma newParameterName_find:
  "newParameterName ns is cur =
     (case List.find (\<lambda>i. pName i \<notin> set ns) is of
        Some i \<Rightarrow> pName i
      | None \<Rightarrow> (if is = [] then cur else pName (last is)))"
  by (induction "is" arbitrary: cur) (auto split: option.splits)

lemma newParameterName_least:
  assumes "length ns \<le> n"
  shows "\<exists>i \<le> n. newParameterName ns [0 ..< n + 1] cur = pName i \<and>
            pName i \<notin> set ns \<and> (\<forall>j < i. pName j \<in> set ns)"
proof -
  obtain k where k: "k \<le> n" "pName k \<notin> set ns"
    using unused_exists [OF assms] by blast
  then have "k \<in> set [0 ..< n + 1]" by (simp del: upt_Suc)
  then have "List.find (\<lambda>i. pName i \<notin> set ns) [0 ..< n + 1] \<noteq> None"
    unfolding find_None_iff using k(2) by blast
  then obtain i where f: "List.find (\<lambda>i. pName i \<notin> set ns) [0 ..< n + 1] = Some i"
    by blast
  then obtain m where m: "m < length [0 ..< n + 1]" "pName ([0 ..< n + 1] ! m) \<notin> set ns"
      "i = [0 ..< n + 1] ! m" "\<forall>j < m. \<not> pName ([0 ..< n + 1] ! j) \<notin> set ns"
    unfolding find_Some_iff by blast
  have im: "i = m" using m(1,3) by (simp del: upt_Suc)
  have "\<forall>j < i. pName j \<in> set ns"
  proof (intro allI impI)
    fix j assume "j < i"
    then have "j < m" "[0 ..< n + 1] ! j = j" using im m(1) by (simp_all del: upt_Suc)
    then show "pName j \<in> set ns" using m(4) by metis
  qed
  moreover have "i \<le> n" "pName i \<notin> set ns" using m(1,2) im by (simp_all del: upt_Suc)
  moreover have "newParameterName ns [0 ..< n + 1] cur = pName i"
    unfolding newParameterName_find f by simp
  ultimately show ?thesis by blast
qed

lemma childFor_distinct_keys:
  "distinct (map fst (childUIs s)) \<Longrightarrow> distinct (map fst (childUIs (snd (childFor c s))))"
proof -
  assume d: "distinct (map fst (childUIs s))"
  obtain n cn cv where c: "c = (n, cn, cv)" by (cases c)
  show ?thesis unfolding c
    by (cases rule: childFor_cases [of s n cn cv])
       (simp_all add: childFor_reuse childFor_new childFor_rebuild d AList.distinct_update)
qed

lemma ac_distinct_keys:
  "distinct (map fst (childUIs s)) \<Longrightarrow>
   distinct (map fst (childUIs (snd (attachChildren cs s))))"
proof (induction cs arbitrary: s)
  case Nil
  then show ?case by simp
next
  case (Cons c cs)
  show ?case unfolding ac_Cons
    by (rule Cons.IH) (rule childFor_distinct_keys [OF Cons.prems])
qed

lemma update_distinct_keys:
  "distinct (map fst (childUIs s)) \<Longrightarrow>
   distinct (map fst (childUIs (updateChildUIs classesArg b s)))"
  unfolding update_childUIs
  by (rule ac_distinct_keys) (simp add: afterDelete_childUIs distinct_map_filter)

lemma appendClass_result:
  "\<exists>i \<le> length (classes s).
     appendClass cn cv s =
       (None, setClassVectorParameterClasses (classes s @ [(pName i, cn, cv)]) s) \<and>
     pName i \<notin> set (map fst (classes s)) \<and>
     (\<forall>j < i. pName j \<in> set (map fst (classes s)))"
proof -
  have "length (map fst (classes s)) \<le> length (classes s)" by simp
  from newParameterName_least [OF this, of "[]"]
  show ?thesis by (auto simp: appendClass_def Let_def)
qed

lemma setClass_None:
  "setClass None cn cv s = appendClass cn cv (updateChildUIs (Some (classes s)) False s)"
  by (simp add: setClass_def Let_def)

lemma addClass_inStep:
  assumes "distinct (map fst (classes s))" and "distinct (map fst (childUIs s))"
  shows "inStep (addClass c s) \<and> length (classes (addClass c s)) = Suc (length (classes s))"
proof -
  define s1 where "s1 = updateChildUIs (Some (classes s)) False s"
  have c1: "classes s1 = classes s" by (simp add: s1_def)
  obtain i where i: "appendClass (fst c) (snd c) s1 =
       (None, setClassVectorParameterClasses (classes s1 @ [(pName i, fst c, snd c)]) s1)"
     "pName i \<notin> set (map fst (classes s1))"
    using appendClass_result [of s1 "fst c" "snd c"] by blast
  define s2 where "s2 = setClassVectorParameterClasses (classes s @ [(pName i, fst c, snd c)]) s1"
  have a: "addClass c s = updateChildUIs None False s2"
    by (simp add: addClass_def classesSetCallback_def setClass_None s1_def [symmetric] i(1) c1 s2_def)
  have cl: "classes s2 = classes s @ [(pName i, fst c, snd c)]"
    by (simp add: s2_def setClassVectorParameterClasses_def)
  have k2: "distinct (map fst (childUIs s2))"
    using update_distinct_keys [OF assms(2), of "Some (classes s)" False]
    by (simp add: s2_def setClassVectorParameterClasses_def s1_def)
  have "distinct (map fst (classes (addClass c s)))"
    using assms(1) i(2) by (simp add: a cl c1)
  moreover have "distinct (map fst (childUIs (addClass c s)))"
    unfolding a by (rule update_distinct_keys [OF k2])
  moreover have "set (map fst (childUIs (addClass c s))) = set (map fst (classes (addClass c s)))"
    unfolding a using update_keys [of None False s2] by (simp add: givenClasses_def)
  moreover have "length (classes (addClass c s)) = Suc (length (classes s))"
    by (simp add: a cl)
  ultimately show ?thesis by (simp add: inStep_def)
qed

lemma addClasses_inStep:
  "inStep s \<Longrightarrow>
   inStep (addClasses cs s) \<and> length (classes (addClasses cs s)) = length (classes s) + length cs"
proof (induction cs arbitrary: s)
  case Nil
  then show ?case by simp
next
  case (Cons c cs)
  have 1: "inStep (addClass c s)" "length (classes (addClass c s)) = Suc (length (classes s))"
    using addClass_inStep [of s c] Cons.prems by (simp_all add: inStep_def)
  show ?case using Cons.IH [OF 1(1)] 1(2) by simp
qed

lemma inStep_length: "inStep s \<Longrightarrow> length (childUIs s) = length (classes s)"
proof -
  assume a: "inStep s"
  have d1: "distinct (map fst (childUIs s))" and d2: "distinct (map fst (classes s))"
    and e: "set (map fst (childUIs s)) = set (map fst (classes s))"
    using a by (simp_all add: inStep_def)
  have "length (map fst (childUIs s)) = card (set (map fst (childUIs s)))"
    using distinct_card [OF d1] by simp
  also have "\<dots> = card (set (map fst (classes s)))" by (simp only: e)
  also have "\<dots> = length (map fst (classes s))"
    using distinct_card [OF d2] by simp
  finally show ?thesis by simp
qed

section \<open>Facts about the host calls of the reconciliation and of a commit\<close>

lemma eventsSince_eq: "trace s' = trace s @ ev \<Longrightarrow> eventsSince s s' = ev"
  by (simp add: eventsSince_def)

lemma eventsSince_self [simp]: "eventsSince s s = []"
  by (simp add: eventsSince_def)

lemma eventsSince_trans:
  "trace s1 = trace s @ eventsSince s s1 \<Longrightarrow> trace s2 = trace s1 @ eventsSince s1 s2 \<Longrightarrow>
   trace s2 = trace s @ eventsSince s s2 \<and> eventsSince s s2 = eventsSince s s1 @ eventsSince s1 s2"
proof -
  assume a: "trace s1 = trace s @ eventsSince s s1" and b: "trace s2 = trace s1 @ eventsSince s1 s2"
  have "trace s2 = trace s @ (eventsSince s s1 @ eventsSince s1 s2)"
    using a b by (metis append_assoc)
  then show ?thesis using eventsSince_eq by metis
qed

lemma dd_events:
  "trace (deleteDisappeared ns b ks s) = trace s @ eventsSince s (deleteDisappeared ns b ks s) \<and>
   (\<forall>e. e \<in> set (eventsSince s (deleteDisappeared ns b ks s)) \<longleftrightarrow>
      (\<exists>k ui. e = DeleteUI (topLevelUI ui) \<and>
              k \<in> set ks \<and> (k \<notin> set ns \<or> b) \<and> map_of (childUIs s) k = Some ui))"
proof -
  obtain ev where ev: "trace (deleteDisappeared ns b ks s) = trace s @ ev"
    "\<forall>e. e \<in> set ev \<longleftrightarrow> (\<exists>k ui. e = DeleteUI (topLevelUI ui) \<and>
                    k \<in> set ks \<and> (k \<notin> set ns \<or> b) \<and> map_of (childUIs s) k = Some ui)"
    using dd_trace [of ns b ks s] by blast
  have "eventsSince s (deleteDisappeared ns b ks s) = ev"
    by (rule eventsSince_eq [OF ev(1)])
  then show ?thesis using ev by simp
qed

lemma afterDelete_events:
  "trace (afterDelete classesArg b s) = trace s @ eventsSince s (afterDelete classesArg b s) \<and>
   (\<forall>e. e \<in> set (eventsSince s (afterDelete classesArg b s)) \<longleftrightarrow>
      (\<exists>k ui. e = DeleteUI (topLevelUI ui) \<and> map_of (childUIs s) k = Some ui \<and>
              (k \<notin> fst ` set (givenClasses classesArg s) \<or> b)))"
proof -
  let ?ns = "map fst (givenClasses classesArg s)"
  let ?ks = "map fst (childUIs s)"
  let ?E = "eventsSince s (deleteDisappeared ?ns b ?ks s)"
  have key: "k \<in> set ?ks" if "map_of (childUIs s) k = Some ui" for k ui
    using map_of_SomeD [OF that] by force
  have d: "trace (deleteDisappeared ?ns b ?ks s) = trace s @ ?E"
    and m: "\<And>e. e \<in> set ?E \<longleftrightarrow>
      (\<exists>k ui. e = DeleteUI (topLevelUI ui) \<and>
              k \<in> set ?ks \<and> (k \<notin> set ?ns \<or> b) \<and> map_of (childUIs s) k = Some ui)"
    using dd_events [of ?ns b ?ks s] by blast+
  have "e \<in> set ?E \<longleftrightarrow>
      (\<exists>k ui. e = DeleteUI (topLevelUI ui) \<and> map_of (childUIs s) k = Some ui \<and>
              (k \<notin> fst ` set (givenClasses classesArg s) \<or> b))" (is "?L \<longleftrightarrow> ?R") for e
  proof
    assume ?L
    then obtain k ui where "e = DeleteUI (topLevelUI ui)" "k \<notin> set ?ns \<or> b"
        "map_of (childUIs s) k = Some ui"
      unfolding m by blast
    then show ?R unfolding set_map by blast
  next
    assume ?R
    then obtain k ui where r: "e = DeleteUI (topLevelUI ui)" "map_of (childUIs s) k = Some ui"
        "k \<notin> fst ` set (givenClasses classesArg s) \<or> b"
      by blast
    have "k \<in> set ?ks" by (rule key [OF r(2)])
    moreover have "k \<notin> set ?ns \<or> b" using r(3) unfolding set_map .
    ultimately show ?L unfolding m using r(1,2) by blast
  qed
  then show ?thesis unfolding afterDelete_def using d by blast
qed

lemma childFor_events:
  "trace (snd (childFor (n, cn, cv) s)) = trace s @ eventsSince s (snd (childFor (n, cn, cv) s)) \<and>
   eventsSince s (snd (childFor (n, cn, cv) s)) =
     (case map_of (childUIs s) n of
        None \<Rightarrow> [CreateUI (nextUI s) n]
      | Some ui \<Rightarrow> if className ui = cn \<and> classVersion ui = cv then []
                   else [DeleteUI (topLevelUI ui), CreateUI (nextUI s) n])"
  by (cases rule: childFor_cases [of s n cn cv])
     (auto simp add: childFor_reuse childFor_new childFor_rebuild eventsSince_def)

lemma ac_prefix:
  "trace (snd (attachChildren cs s)) = trace s @ eventsSince s (snd (attachChildren cs s))"
proof (induction cs arbitrary: s)
  case Nil
  show ?case by simp
next
  case (Cons c cs)
  obtain n cn cv where c: "c = (n, cn, cv)" by (cases c)
  show ?case unfolding ac_Cons c
    using eventsSince_trans [of "snd (childFor (n, cn, cv) s)" s
             "snd (attachChildren cs (snd (childFor (n, cn, cv) s)))"]
          childFor_events [of n cn cv s] Cons.IH [of "snd (childFor (n, cn, cv) s)"]
    by blast
qed

lemma ac_events_Cons:
  "eventsSince s (snd (attachChildren ((n, cn, cv) # cs) s)) =
     eventsSince s (snd (childFor (n, cn, cv) s)) @
     eventsSince (snd (childFor (n, cn, cv) s)) (snd (attachChildren cs (snd (childFor (n, cn, cv) s))))"
  unfolding ac_Cons
  using eventsSince_trans [of "snd (childFor (n, cn, cv) s)" s
             "snd (attachChildren cs (snd (childFor (n, cn, cv) s)))"]
        childFor_events [of n cn cv s] ac_prefix [of cs "snd (childFor (n, cn, cv) s)"]
  by blast

lemma ac_widget_events:
  "list_all isWidgetEvent (eventsSince s (snd (attachChildren cs s)))"
proof (induction cs arbitrary: s)
  case Nil
  show ?case by simp
next
  case (Cons c cs)
  obtain n cn cv where c: "c = (n, cn, cv)" by (cases c)
  have "list_all isWidgetEvent (eventsSince s (snd (childFor (n, cn, cv) s)))"
    using childFor_events [of n cn cv s]
    by (auto simp: isWidgetEvent_def split: option.splits)
  then show ?case unfolding c ac_events_Cons using Cons.IH by simp
qed

lemma ac_deleted:
  assumes "distinct (map fst cs)"
  shows "DeleteUI h \<in> set (eventsSince s (snd (attachChildren cs s))) \<longleftrightarrow>
     (\<exists>n cn cv ui. (n, cn, cv) \<in> set cs \<and> map_of (childUIs s) n = Some ui \<and>
        (className ui \<noteq> cn \<or> classVersion ui \<noteq> cv) \<and> h = topLevelUI ui)"
  using assms
proof (induction cs arbitrary: s)
  case Nil
  show ?case by simp
next
  case (Cons c cs)
  obtain n cn cv where c: "c = (n, cn, cv)" by (cases c)
  let ?s1 = "snd (childFor (n, cn, cv) s)"
  have d: "distinct (map fst cs)" and nn: "n \<notin> fst ` set cs"
    using Cons.prems c by auto
  have same: "map_of (childUIs ?s1) n' = map_of (childUIs s) n'" if "(n', cn', cv') \<in> set cs" for n' cn' cv'
  proof -
    have "n' \<noteq> n" using that nn by force
    then show ?thesis by (simp add: childFor_map_of)
  qed
  have first: "DeleteUI h \<in> set (eventsSince s ?s1) \<longleftrightarrow>
      (\<exists>ui. map_of (childUIs s) n = Some ui \<and> (className ui \<noteq> cn \<or> classVersion ui \<noteq> cv) \<and> h = topLevelUI ui)"
    using childFor_events [of n cn cv s] by (auto split: option.splits)
  have rest: "DeleteUI h \<in> set (eventsSince ?s1 (snd (attachChildren cs ?s1))) \<longleftrightarrow>
     (\<exists>n' cn' cv' ui. (n', cn', cv') \<in> set cs \<and> map_of (childUIs s) n' = Some ui \<and>
        (className ui \<noteq> cn' \<or> classVersion ui \<noteq> cv') \<and> h = topLevelUI ui)"
    unfolding Cons.IH [OF d, of ?s1] using same by metis
  have split: "(\<exists>n' cn' cv' ui. (n', cn', cv') \<in> set ((n, cn, cv) # cs) \<and> map_of (childUIs s) n' = Some ui \<and>
        (className ui \<noteq> cn' \<or> classVersion ui \<noteq> cv') \<and> h = topLevelUI ui) \<longleftrightarrow>
      (\<exists>ui. map_of (childUIs s) n = Some ui \<and> (className ui \<noteq> cn \<or> classVersion ui \<noteq> cv) \<and> h = topLevelUI ui) \<or>
      (\<exists>n' cn' cv' ui. (n', cn', cv') \<in> set cs \<and> map_of (childUIs s) n' = Some ui \<and>
        (className ui \<noteq> cn' \<or> classVersion ui \<noteq> cv') \<and> h = topLevelUI ui)"
    by (simp only: list.set insert_iff prod.inject) blast
  show ?case unfolding c ac_events_Cons set_append Un_iff first rest split ..
qed


lemma isCommit_widget: "isWidgetEvent e \<Longrightarrow> \<not> isCommit e"
  by (cases e) (simp_all add: isWidgetEvent_def isCommit_def)

lemma isCommit_layout: "\<not> isCommit (FormLayoutEdit attached)"
  by (simp add: isCommit_def)

lemma afterDelete_widget_events:
  "list_all isWidgetEvent (eventsSince s (afterDelete classesArg b s))"
  unfolding list_all_iff using afterDelete_events [of classesArg b s]
  by (auto simp: isWidgetEvent_def)

lemma update_events:
  "trace (updateChildUIs classesArg b s) = trace s @ eventsSince s (updateChildUIs classesArg b s) \<and>
   eventsSince s (updateChildUIs classesArg b s) =
     eventsSince s (afterDelete classesArg b s) @
     eventsSince (afterDelete classesArg b s)
       (snd (attachChildren (givenClasses classesArg s) (afterDelete classesArg b s))) @
     [FormLayoutEdit (fst (attachChildren (givenClasses classesArg s) (afterDelete classesArg b s)))]"
proof -
  let ?s1 = "afterDelete classesArg b s"
  let ?s2 = "snd (attachChildren (givenClasses classesArg s) ?s1)"
  let ?l = "FormLayoutEdit (fst (attachChildren (givenClasses classesArg s) ?s1))"
  have 1: "trace ?s1 = trace s @ eventsSince s ?s1"
    using afterDelete_events [of classesArg b s] by blast
  have 2: "trace ?s2 = trace ?s1 @ eventsSince ?s1 ?s2" by (rule ac_prefix)
  have "trace (updateChildUIs classesArg b s) = trace ?s2 @ [?l]"
    by (simp add: update_unfold)
  then have "trace (updateChildUIs classesArg b s) =
               trace s @ (eventsSince s ?s1 @ eventsSince ?s1 ?s2 @ [?l])"
    using 1 2 by (metis append_assoc)
  then show ?thesis using eventsSince_eq by metis
qed

lemma update_no_commit:
  "\<not> list_ex isCommit (eventsSince s (updateChildUIs classesArg b s))"
proof -
  have "list_all (\<lambda>e. \<not> isCommit e) (eventsSince s (updateChildUIs classesArg b s))"
    using afterDelete_widget_events [of s classesArg b]
          ac_widget_events [of "afterDelete classesArg b s" "givenClasses classesArg s"]
    by (auto simp: update_events list_all_iff isCommit_layout dest: isCommit_widget)
  then show ?thesis by (simp add: list_all_iff list_ex_iff)
qed

lemma update_last_event:
  "last (eventsSince s (updateChildUIs classesArg b s)) =
     FormLayoutEdit (fst (attachChildren (givenClasses classesArg s) (afterDelete classesArg b s)))"
  by (simp add: update_events)

lemma commit_events:
  "trace s1 = trace s @ eventsSince s s1 \<Longrightarrow>
   trace (setClassVectorParameterClasses cs s1) =
     trace s @ eventsSince s (setClassVectorParameterClasses cs s1) \<and>
   eventsSince s (setClassVectorParameterClasses cs s1) = eventsSince s s1 @ [SetClasses cs]"
proof -
  assume a: "trace s1 = trace s @ eventsSince s s1"
  have "trace (setClassVectorParameterClasses cs s1) = trace s @ (eventsSince s s1 @ [SetClasses cs])"
    using a by (simp add: setClassVectorParameterClasses_def)
  then show ?thesis using eventsSince_eq by metis
qed

lemma findParameter_None: "findParameter n cs k = None \<longleftrightarrow> n \<notin> fst ` set cs"
  by (induction cs arbitrary: k) auto

lemma findParameter_Some:
  "findParameter n cs k = Some i \<Longrightarrow>
   k \<le> i \<and> i - k < length cs \<and> fst (cs ! (i - k)) = n"
proof (induction cs arbitrary: k)
  case Nil
  then show ?case by simp
next
  case (Cons c cs)
  show ?case
  proof (cases "fst c = n")
    case True
    then show ?thesis using Cons.prems by simp
  next
    case False
    then have "findParameter n cs (Suc k) = Some i" using Cons.prems by simp
    from Cons.IH [OF this] have "Suc k \<le> i" "i - Suc k < length cs" "fst (cs ! (i - Suc k)) = n"
      by simp_all
    moreover from this(1) have "i - k = Suc (i - Suc k)" by simp
    ultimately show ?thesis by simp
  qed
qed

lemma setClass_cases:
  fixes parameterName cn cv s
  defines "pre \<equiv> updateChildUIs (Some (filter (\<lambda>c. Some (fst c) \<noteq> parameterName) (classes s))) False s"
  shows "setClass parameterName cn cv s = (Some (notPresent (the parameterName)), pre) \<or>
         (\<exists>cs. setClass parameterName cn cv s = (None, setClassVectorParameterClasses cs pre))"
proof (cases parameterName)
  case None
  then show ?thesis
    using appendClass_result [of pre cn cv] by (auto simp: setClass_def Let_def pre_def)
next
  case (Some n)
  show ?thesis
  proof (cases "n = []")
    case True
    then show ?thesis
      using Some appendClass_result [of pre cn cv] by (auto simp: setClass_def Let_def pre_def)
  next
    case False
    then show ?thesis using Some
      by (cases "findParameter n (classes s) 0") (auto simp add: setClass_def Let_def pre_def)
  qed
qed

section \<open>Facts about the registry around a commit\<close>

lemma map_of_filter_key:
  "map_of (filter (\<lambda>p. P (fst p)) al) k = (if P k then map_of al k else None)"
  by (induction al) auto

lemma afterDelete_map_of:
  "map_of (childUIs (afterDelete classesArg b s)) k =
     (if k \<in> fst ` set (givenClasses classesArg s) \<and> \<not> b then map_of (childUIs s) k else None)"
  unfolding afterDelete_childUIs
  by (rule map_of_filter_key [of "\<lambda>k. k \<in> fst ` set (givenClasses classesArg s) \<and> \<not> b"])

lemma afterDelete_nextUI [simp]: "nextUI (afterDelete classesArg b s) = nextUI s"
  by (simp add: afterDelete_def)

lemma filter_absent:
  "n \<notin> fst ` set cs \<Longrightarrow> filter (\<lambda>c. fst c \<noteq> n) cs = cs"
  by (induction cs) auto

lemma commit_childUIs [simp]:
  "childUIs (setClassVectorParameterClasses cs s) = childUIs s"
  by (simp add: setClassVectorParameterClasses_def)

lemma commit_classes [simp]:
  "classes (setClassVectorParameterClasses cs s) = cs"
  by (simp add: setClassVectorParameterClasses_def)

lemma names_filter: "fst ` set (filter (\<lambda>c. fst c \<noteq> n) cs) = fst ` set cs - {n}"
  by (induction cs) auto

lemma names_replace:
  "i < length cs \<Longrightarrow> fst (cs ! i) = n \<Longrightarrow> map fst (cs[i := (n, cn, cv)]) = map fst cs"
  by (simp add: map_update list_update_same_conv)

section \<open>Facts about reuse, rebuilding and widget handles\<close>

lemma ac_reuse:
  assumes "distinct (map fst cs)" and "(n, cn, cv) \<in> set cs"
    and "map_of (childUIs s) n = Some ui" and "className ui = cn" and "classVersion ui = cv"
  shows "map_of (childUIs (snd (attachChildren cs s))) n = Some ui"
  using assms
proof (induction cs arbitrary: s)
  case Nil
  then show ?case by simp
next
  case (Cons c cs)
  obtain n' cn' cv' where c: "c = (n', cn', cv')" by (cases c)
  show ?case
  proof (cases "(n, cn, cv) = c")
    case True
    then have nn: "n \<notin> fst ` set cs" using Cons.prems(1) by force
    have "childFor c s = (ui, s)"
      using True childFor_reuse [OF Cons.prems(3,4,5)] by simp
    then show ?thesis unfolding ac_Cons using Cons.prems(3) by (simp add: ac_frame [OF nn])
  next
    case False
    then have in_cs: "(n, cn, cv) \<in> set cs" using Cons.prems(2) by simp
    then have "n \<noteq> n'" using Cons.prems(1) c by force
    then have "map_of (childUIs (snd (childFor c s))) n = Some ui"
      unfolding c using Cons.prems(3) by (simp add: childFor_map_of)
    moreover have "distinct (map fst cs)" using Cons.prems(1) by simp
    ultimately show ?thesis unfolding ac_Cons
      using Cons.IH [of "snd (childFor c s)"] in_cs Cons.prems(4,5) by blast
  qed
qed

lemma childFor_built:
  assumes "\<not> (\<exists>ui. map_of (childUIs s) n = Some ui \<and> className ui = cn \<and> classVersion ui = cv)"
  shows "map_of (childUIs (snd (childFor (n, cn, cv) s))) n = Some (newChild cn cv s) \<and>
         CreateUI (nextUI s) n \<in> set (eventsSince s (snd (childFor (n, cn, cv) s)))"
  using assms childFor_events [of n cn cv s]
  by (cases rule: childFor_cases [of s n cn cv])
     (auto simp add: childFor_new childFor_rebuild AList.update_conv')

lemma ac_built:
  assumes "distinct (map fst cs)" and "(n, cn, cv) \<in> set cs"
    and "\<not> (\<exists>ui. map_of (childUIs s) n = Some ui \<and> className ui = cn \<and> classVersion ui = cv)"
  shows "\<exists>ui'. map_of (childUIs (snd (attachChildren cs s))) n = Some ui' \<and>
           className ui' = cn \<and> classVersion ui' = cv \<and> nextUI s \<le> topLevelUI ui' \<and>
           CreateUI (topLevelUI ui') n \<in> set (eventsSince s (snd (attachChildren cs s)))"
  using assms
proof (induction cs arbitrary: s)
  case Nil
  then show ?case by simp
next
  case (Cons c cs)
  obtain n' cn' cv' where c: "c = (n', cn', cv')" by (cases c)
  let ?s1 = "snd (childFor (n', cn', cv') s)"
  show ?case
  proof (cases "(n, cn, cv) = c")
    case True
    then have nn: "n \<notin> fst ` set cs" using Cons.prems(1) by force
    have eq: "n' = n" "cn' = cn" "cv' = cv" using True c by simp_all
    have b: "map_of (childUIs ?s1) n = Some (newChild cn cv s)"
         "CreateUI (nextUI s) n \<in> set (eventsSince s ?s1)"
      unfolding eq using childFor_built [OF Cons.prems(3)] by simp_all
    have "map_of (childUIs (snd (attachChildren (c # cs) s))) n = Some (newChild cn cv s)"
      unfolding ac_Cons c using b(1) by (simp add: ac_frame [OF nn])
    moreover have "CreateUI (nextUI s) n \<in> set (eventsSince s (snd (attachChildren (c # cs) s)))"
      unfolding c ac_events_Cons using b(2) by simp
    ultimately show ?thesis by (auto simp: newChild_def)
  next
    case False
    then have in_cs: "(n, cn, cv) \<in> set cs" using Cons.prems(2) by simp
    then have ne: "n \<noteq> n'" using Cons.prems(1) c by force
    have d: "distinct (map fst cs)" using Cons.prems(1) by simp
    have "map_of (childUIs ?s1) n = map_of (childUIs s) n"
      using ne by (simp add: childFor_map_of)
    then have no: "\<not> (\<exists>ui. map_of (childUIs ?s1) n = Some ui \<and> className ui = cn \<and> classVersion ui = cv)"
      using Cons.prems(3) by simp
    obtain ui' where u: "map_of (childUIs (snd (attachChildren cs ?s1))) n = Some ui'"
        "className ui' = cn" "classVersion ui' = cv" "nextUI ?s1 \<le> topLevelUI ui'"
        "CreateUI (topLevelUI ui') n \<in> set (eventsSince ?s1 (snd (attachChildren cs ?s1)))"
      using Cons.IH [OF d in_cs no] by blast
    have "nextUI s \<le> topLevelUI ui'"
      using u(4) childFor_nextUI [of s "(n', cn', cv')"] by linarith
    moreover have "CreateUI (topLevelUI ui') n \<in> set (eventsSince s (snd (attachChildren (c # cs) s)))"
      unfolding c ac_events_Cons using u(5) by simp
    moreover have "map_of (childUIs (snd (attachChildren (c # cs) s))) n = Some ui'"
      unfolding ac_Cons c using u(1) .
    ultimately show ?thesis using u(2,3) by blast
  qed
qed

lemma handle_unique:
  assumes "handlesOk s" and "map_of (childUIs s) k = Some u" and "map_of (childUIs s) n = Some w"
    and "topLevelUI u = topLevelUI w"
  shows "k = n \<and> u = w"
proof -
  have "inj_on (\<lambda>p. topLevelUI (snd p)) (set (childUIs s))"
    using assms(1) by (simp add: handlesOk_def distinct_map)
  moreover have "(k, u) \<in> set (childUIs s)" "(n, w) \<in> set (childUIs s)"
    using assms(2,3) by (auto dest: map_of_SomeD)
  ultimately have "(k, u) = (n, w)"
    using assms(4) inj_onD [of "\<lambda>p. topLevelUI (snd p)" "set (childUIs s)" "(k, u)" "(n, w)"]
    by simp
  then show ?thesis by simp
qed

lemma handle_below:
  "handlesOk s \<Longrightarrow> map_of (childUIs s) n = Some w \<Longrightarrow> topLevelUI w < nextUI s"
proof -
  assume a: "handlesOk s" and m: "map_of (childUIs s) n = Some w"
  have "(n, w) \<in> set (childUIs s)" by (rule map_of_SomeD [OF m])
  moreover have "\<forall>p \<in> set (childUIs s). topLevelUI (snd p) < nextUI s"
    using a by (simp add: handlesOk_def list_all_iff)
  ultimately show ?thesis by force
qed

lemma entry_unique:
  "distinct (map fst cs) \<Longrightarrow> (n, cn, cv) \<in> set cs \<Longrightarrow> (n, cn', cv') \<in> set cs \<Longrightarrow>
   cn' = cn \<and> cv' = cv"
  by (metis eq_key_imp_eq_value prod.inject)

text \<open>
  The condition on handles holds for a widget just built and is kept by the
  reconciliation and by a commit.
\<close>

lemma set_update_subset: "set (AList.update k v al) \<subseteq> insert (k, v) (set al)"
  by (induction al) auto

lemma update_distinct_handles:
  "distinct (map (\<lambda>p. g (snd p)) al) \<Longrightarrow> \<forall>p \<in> set al. g (snd p) \<noteq> g v \<Longrightarrow>
   distinct (map (\<lambda>p. g (snd p)) (AList.update k v al))"
proof (induction al)
  case Nil
  then show ?case by simp
next
  case (Cons a al)
  show ?case
  proof (cases "fst a = k")
    case True
    then show ?thesis using Cons.prems by (cases a) auto
  next
    case False
    have "g (snd a) \<notin> (\<lambda>p. g (snd p)) ` set (AList.update k v al)"
    proof
      assume "g (snd a) \<in> (\<lambda>p. g (snd p)) ` set (AList.update k v al)"
      then obtain p where p: "p \<in> set (AList.update k v al)" "g (snd a) = g (snd p)" by blast
      then have "p = (k, v) \<or> p \<in> set al" using set_update_subset [of k v al] by blast
      then show False using p(2) Cons.prems by auto
    qed
    then show ?thesis using False Cons by (cases a) auto
  qed
qed

lemma handlesOk_built:
  assumes "handlesOk s"
  shows "handlesOk (s\<lparr>childUIs := AList.update n (newChild cn cv s) (childUIs s),
                      nextUI := Suc (nextUI s), trace := tr\<rparr>)"
proof -
  have below: "\<forall>p \<in> set (childUIs s). topLevelUI (snd p) < nextUI s"
    using assms by (simp add: handlesOk_def list_all_iff)
  then have "\<forall>p \<in> set (childUIs s). topLevelUI (snd p) \<noteq> topLevelUI (newChild cn cv s)"
    by (auto simp: newChild_def)
  then have "distinct (map (\<lambda>p. topLevelUI (snd p)) (AList.update n (newChild cn cv s) (childUIs s)))"
    using assms by (intro update_distinct_handles) (simp_all add: handlesOk_def)
  moreover have "\<forall>p \<in> set (AList.update n (newChild cn cv s) (childUIs s)).
                   topLevelUI (snd p) < Suc (nextUI s)"
    using below set_update_subset [of n "newChild cn cv s" "childUIs s"]
    by (fastforce simp: newChild_def)
  ultimately show ?thesis by (simp add: handlesOk_def list_all_iff)
qed

lemma childFor_handlesOk: "handlesOk s \<Longrightarrow> handlesOk (snd (childFor c s))"
proof -
  assume ok: "handlesOk s"
  obtain n cn cv where c: "c = (n, cn, cv)" by (cases c)
  show ?thesis unfolding c
    by (cases rule: childFor_cases [of s n cn cv])
       (simp_all add: childFor_reuse childFor_new childFor_rebuild ok handlesOk_built [OF ok])
qed

lemma ac_handlesOk: "handlesOk s \<Longrightarrow> handlesOk (snd (attachChildren cs s))"
proof (induction cs arbitrary: s)
  case Nil
  then show ?case by simp
next
  case (Cons c cs)
  show ?case unfolding ac_Cons by (rule Cons.IH) (rule childFor_handlesOk [OF Cons.prems])
qed

lemma update_handlesOk: "handlesOk s \<Longrightarrow> handlesOk (updateChildUIs classesArg b s)"
proof -
  assume ok: "handlesOk s"
  have "handlesOk (afterDelete classesArg b s)"
    using ok by (simp add: handlesOk_def afterDelete_childUIs distinct_map_filter list_all_iff)
  then have "handlesOk (snd (attachChildren (givenClasses classesArg s) (afterDelete classesArg b s)))"
    by (rule ac_handlesOk)
  then show ?thesis by (simp add: update_unfold handlesOk_def)
qed

lemma commit_handlesOk: "handlesOk s \<Longrightarrow> handlesOk (setClassVectorParameterClasses cs s)"
  by (simp add: handlesOk_def setClassVectorParameterClasses_def)

lemma emptyState_handlesOk: "handlesOk emptyState"
  by (simp add: handlesOk_def emptyState_def)

section \<open>The claims\<close>

text \<open>
  C2. After a run of \<^verbatim>\<open>__updateChildUIs\<close> over a class entry list, the keys of
  \<^verbatim>\<open>__childUIs\<close> are exactly the parameter names of that list: every name of the list
  has a widget and there is no widget for another name. This holds for every state, every
  list (given, or read from the parameter) and both values of \<^verbatim>\<open>startFromScratch\<close>.
  The runs shown are over the list read from the parameter, with a registry that holds
  one child more than the list: without and with \<^verbatim>\<open>startFromScratch\<close>.
\<close>

theorem updateChildUIs_registry_keys:
  "set (map fst (childUIs (updateChildUIs classesArg startFromScratch s))) =
     set (map fst (givenClasses classesArg s))"
  by (rule update_keys)

theorem updateChildUIs_registry_keys_witness:
  "givenClasses None staleState = [(''p0'', ''A'', 1)] \<and>
   set (map fst (childUIs staleState)) = {''p0'', ''gone''} \<and>
   set (map fst (childUIs (updateChildUIs None False staleState))) = {''p0''} \<and>
   set (map fst (childUIs (updateChildUIs None True staleState))) = {''p0''}"
  using updateChildUIs_registry_keys [of None False staleState]
        updateChildUIs_registry_keys [of None True staleState]
  by (auto simp add: givenClasses_def staleState_def)

text \<open>
  C5. Reconciliation is idempotent: after a run of \<^verbatim>\<open>__updateChildUIs\<close> over a list of
  entries with distinct parameter names (the names of the entries of one parameter), a
  second run with the same argument and \<^verbatim>\<open>startFromScratch\<close> false changes nothing but
  the trace, to which it adds the closing layout edit only: no widget is deleted or
  built and the registry is the same.
\<close>

theorem updateChildUIs_idempotent:
  assumes "distinct (map fst (givenClasses classesArg s))"
  shows "\<exists>attached.
           updateChildUIs classesArg False (updateChildUIs classesArg startFromScratch s) =
             (updateChildUIs classesArg startFromScratch s)
               \<lparr>trace := trace (updateChildUIs classesArg startFromScratch s)
                          @ [FormLayoutEdit attached]\<rparr>"
proof -
  let ?s1 = "updateChildUIs classesArg startFromScratch s"
  have g: "givenClasses classesArg ?s1 = givenClasses classesArg s"
    by (simp add: givenClasses_def split: option.splits)
  have d: "distinct (map fst (givenClasses classesArg s))"
    using assms .
  have 1: "synced (givenClasses classesArg ?s1) ?s1"
    unfolding g by (rule update_synced [OF d])
  have 2: "fst ` set (childUIs ?s1) \<subseteq> fst ` set (givenClasses classesArg ?s1)"
    unfolding g using update_keys [of classesArg startFromScratch s]
    by simp
  show ?thesis using update_noop [OF 1 2] by blast
qed

theorem updateChildUIs_idempotent_witness:
  "distinct (map fst (givenClasses None staleState)) \<and>
   (\<exists>attached.
      updateChildUIs None False (updateChildUIs None True staleState) =
        (updateChildUIs None True staleState)
          \<lparr>trace := trace (updateChildUIs None True staleState) @ [FormLayoutEdit attached]\<rparr>)"
proof -
  have d: "distinct (map fst (givenClasses None staleState))"
    by (simp add: givenClasses_def staleState_def)
  show ?thesis using d updateChildUIs_idempotent [OF d, of True] by simp
qed

text \<open>
  C6. For every class list and every index \<^verbatim>\<open>oldIndex\<close> that Python accepts for the list
  (the menu passes the index of the layer, from \<open>0\<close> to the length less one; a negative
  index counts from the end), and for every \<^verbatim>\<open>newIndex\<close> whatsoever, \<^verbatim>\<open>__moveLayer\<close>
  raises nothing and commits a permutation of the list it read: the multiset of entries
  (parameter name, class name, class version) is the same.
\<close>

theorem moveLayer_permutes:
  assumes "- int (length (classes s)) \<le> oldIndex" and "oldIndex < int (length (classes s))"
  shows "\<exists>moved.
           moveLayer oldIndex newIndex s =
             (None, s\<lparr>classes := moved, trace := trace s @ [SetClasses moved]\<rparr>) \<and>
           mset moved = mset (classes s)"
proof -
  obtain k where k: "k < length (classes s)" "itemIndex oldIndex (length (classes s)) = Some k"
    using itemIndex_Some [OF assms] by blast
  define without where "without = take k (classes s) @ drop (Suc k) (classes s)"
  define j where "j = sliceIndex newIndex (length without)"
  define moved where "moved = take j without @ [classes s ! k] @ drop j without"
  have "moveLayer oldIndex newIndex s =
          (None, s\<lparr>classes := moved, trace := trace s @ [SetClasses moved]\<rparr>)"
    using k(2)
    by (simp add: moveLayer_def Let_def setClassVectorParameterClasses_def
          moved_def j_def without_def)
  moreover have "mset moved = mset (classes s)"
    unfolding moved_def mset_insert_at without_def by (rule mset_without [OF k(1)])
  ultimately show ?thesis by blast
qed

theorem moveLayer_permutes_witness:
  "- int (length (classes (syncedState\<lparr>classes := [(''a'', ''A'', 1), (''b'', ''B'', 1), (''c'', ''C'', 1)]\<rparr>))) \<le> 0 \<and>
   0 < int (length (classes (syncedState\<lparr>classes := [(''a'', ''A'', 1), (''b'', ''B'', 1), (''c'', ''C'', 1)]\<rparr>))) \<and>
   (\<exists>moved.
      moveLayer 0 2 (syncedState\<lparr>classes := [(''a'', ''A'', 1), (''b'', ''B'', 1), (''c'', ''C'', 1)]\<rparr>) =
        (None, syncedState\<lparr>classes := moved, trace := trace syncedState @ [SetClasses moved]\<rparr>) \<and>
      mset moved = mset [(''a'', ''A'', 1), (''b'', ''B'', 1), (''c'', ''C'', 1)])"
  using moveLayer_permutes
          [of "syncedState\<lparr>classes := [(''a'', ''A'', 1), (''b'', ''B'', 1), (''c'', ''C'', 1)]\<rparr>" 0 2]
  by simp

text \<open>
  C8. In \<^verbatim>\<open>__attributeChanged\<close> a failing \<^verbatim>\<open>fnPH.parameterPlug( parameter )\<close> raises nothing
  out of the callback, whatever the exception: with the two preset lists of equal length
  (they are appended to together), the callback returns normally, and the labels it
  edits are those of all indices whose lookup succeeds with the changed plug, in order,
  also behind an index whose lookup failed.
\<close>

theorem attributeChanged_skips_failed_lookups:
  assumes "length (presetUIs h) = length (presetParameters h)"
  shows "attributeChanged kAttributeSet parameterPlug getCurrentPresetName changeType plug h =
     (None,
      if changeType AND kAttributeSet = 0 then h
      else h\<lparr>labelEdits := labelEdits h @
             map (\<lambda>i. (presetUIs h ! i, getCurrentPresetName (presetParameters h ! i)))
               (filter (\<lambda>i. parameterPlug (presetParameters h ! i) = Inr plug)
                  [0 ..< length (presetParameters h)])\<rparr>)"
proof (cases "changeType AND kAttributeSet = 0")
  case True
  then show ?thesis by (simp add: attributeChanged_def)
next
  case False
  have inrange: "\<forall>ip \<in> set (enumerate 0 (presetParameters h)).
           fst ip < length (presetUIs h) \<and> fst ip < length (presetParameters h)"
    using assms by (auto simp: enumerate_nth)
  have "map (\<lambda>ip. (presetUIs h ! fst ip, getCurrentPresetName (presetParameters h ! fst ip)))
            (filter (\<lambda>ip. parameterPlug (snd ip) = Inr plug) (enumerate 0 (presetParameters h)))
        = map (\<lambda>i. (presetUIs h ! i, getCurrentPresetName (presetParameters h ! i)))
               (filter (\<lambda>i. parameterPlug (presetParameters h ! i) = Inr plug)
                  [0 ..< length (presetParameters h)])"
    by (simp add: enumerate_nth filter_map comp_def)
  then show ?thesis
    using False presetLoop_result [OF inrange, of parameterPlug getCurrentPresetName plug]
    by (simp add: attributeChanged_def)
qed

theorem attributeChanged_skips_failed_lookups_witness:
  "length (presetUIs \<lparr>presetParameters = [''a'', ''b''], presetUIs = [10, 11], labelEdits = []\<rparr>) =
     length (presetParameters \<lparr>presetParameters = [''a'', ''b''], presetUIs = [10, 11], labelEdits = []\<rparr>) \<and>
   attributeChanged 8 (\<lambda>p. if p = ''a'' then Inl (RuntimeError ''no plug'') else Inr 5)
       (\<lambda>p. ''preset of '' @ p) 8 5
       \<lparr>presetParameters = [''a'', ''b''], presetUIs = [10, 11], labelEdits = []\<rparr> =
     (None, \<lparr>presetParameters = [''a'', ''b''], presetUIs = [10, 11],
             labelEdits = [(11, ''preset of b'')]\<rparr>)"
  using attributeChanged_skips_failed_lookups
          [of "\<lparr>presetParameters = [''a'', ''b''], presetUIs = [10, 11], labelEdits = []\<rparr>"
              8 "\<lambda>p. if p = ''a'' then Inl (RuntimeError ''no plug'') else Inr 5"
              "\<lambda>p. ''preset of '' @ p" 8 5]
  by (simp add: upt_rec)

text \<open>
  C9. Missing optional user data never raises: when the \<^verbatim>\<open>"UI"\<close> entry or the key below
  it is missing, \<^verbatim>\<open>collapsable\<close> is \<^verbatim>\<open>True\<close> in the constructor, \<^verbatim>\<open>classNameFilter\<close> is
  \<^verbatim>\<open>"*"\<close> in the class menu and \<^verbatim>\<open>forHeader\<close> is \<^verbatim>\<open>False\<close> for either header key.
\<close>

theorem userData_defaults:
  "(keyMissing userData ''collapsable'' \<longrightarrow> collapsable userData = Inr (PyBool True)) \<and>
   (keyMissing userData ''classNameFilter'' \<longrightarrow> classNameFilter userData = Inr (PyStr ''*'')) \<and>
   (keyMissing userData uiKey \<longrightarrow> forHeader userData uiKey = Inr (PyBool False))"
proof (intro conjI impI)
  assume "keyMissing userData ''collapsable''"
  then obtain k where "userDataUI userData ''collapsable'' = Inl (KeyError k)"
    using keyMissing_KeyError by blast
  then show "collapsable userData = Inr (PyBool True)"
    by (simp add: collapsable_def ignoringKeyError_def)
next
  assume "keyMissing userData ''classNameFilter''"
  then obtain k where "userDataUI userData ''classNameFilter'' = Inl (KeyError k)"
    using keyMissing_KeyError by blast
  then show "classNameFilter userData = Inr (PyStr ''*'')"
    by (simp add: classNameFilter_def)
next
  assume "keyMissing userData uiKey"
  then obtain k where "userDataUI userData uiKey = Inl (KeyError k)"
    using keyMissing_KeyError by blast
  then show "forHeader userData uiKey = Inr (PyBool False)"
    by (simp add: forHeader_def ignoringKeyError_def)
qed

theorem userData_defaults_witness:
  "keyMissing [] ''collapsable'' \<and> collapsable [] = Inr (PyBool True) \<and>
   keyMissing [(''UI'', CompoundData [(''collapsable'', BoolData False)])] ''classNameFilter'' \<and>
   classNameFilter [(''UI'', CompoundData [(''collapsable'', BoolData False)])] = Inr (PyStr ''*'') \<and>
   keyMissing [(''UI'', CompoundData [(''collapsable'', BoolData False)])] ''classVectorParameterHeader'' \<and>
   forHeader [(''UI'', CompoundData [(''collapsable'', BoolData False)])] ''classVectorParameterHeader''
     = Inr (PyBool False)"
  using userData_defaults [of "[]" "''classVectorParameterHeader''"]
        userData_defaults [of "[(''UI'', CompoundData [(''collapsable'', BoolData False)])]"
                              "''classVectorParameterHeader''"]
  by (simp add: keyMissing_def)

text \<open>
  C7. \<^verbatim>\<open>_setClass\<close> with no parameter name raises nothing and commits the class list
  with one entry appended at its end, whose name is \<^verbatim>\<open>"p%d" % i\<close> for the smallest \<open>i\<close>
  from \<open>0\<close> to the length of the list such that the name is not used in the list; so
  the name differs from every name of the list. Hence, starting from a widget without
  classes and children, after adding \<open>N\<close> entries (each addition followed by the host's
  callback) the registry holds \<open>N\<close> children under distinct names, the names of the
  class list.
\<close>

theorem setClass_adds_unused_name:
  "(\<exists>i \<le> length (classes s).
      setClass None cn cv s =
        (None, setClassVectorParameterClasses (classes s @ [(''p'' @ format_d i, cn, cv)])
                 (updateChildUIs (Some (classes s)) False s)) \<and>
      ''p'' @ format_d i \<notin> set (map fst (classes s)) \<and>
      (\<forall>j < i. ''p'' @ format_d j \<in> set (map fst (classes s)))) \<and>
   (classes s = [] \<and> childUIs s = [] \<longrightarrow>
      length (childUIs (addClasses added s)) = length added \<and>
      distinct (map fst (childUIs (addClasses added s))) \<and>
      set (map fst (childUIs (addClasses added s))) = set (map fst (classes (addClasses added s))))"
proof (intro conjI impI)
  show "\<exists>i \<le> length (classes s).
      setClass None cn cv s =
        (None, setClassVectorParameterClasses (classes s @ [(''p'' @ format_d i, cn, cv)])
                 (updateChildUIs (Some (classes s)) False s)) \<and>
      ''p'' @ format_d i \<notin> set (map fst (classes s)) \<and>
      (\<forall>j < i. ''p'' @ format_d j \<in> set (map fst (classes s)))"
    using appendClass_result [of "updateChildUIs (Some (classes s)) False s" cn cv]
    unfolding setClass_None pName_def by simp
next
  assume e: "classes s = [] \<and> childUIs s = []"
  then have "inStep s" by (simp add: inStep_def)
  then have r: "inStep (addClasses added s)"
      "length (classes (addClasses added s)) = length (classes s) + length added"
    using addClasses_inStep by blast+
  show "length (childUIs (addClasses added s)) = length added"
    using inStep_length [OF r(1)] r(2) e by simp
  show "distinct (map fst (childUIs (addClasses added s)))"
    using r(1) by (simp add: inStep_def)
  show "set (map fst (childUIs (addClasses added s))) = set (map fst (classes (addClasses added s)))"
    using r(1) by (simp add: inStep_def)
qed

theorem setClass_adds_unused_name_witness:
  "classes emptyState = [] \<and> childUIs emptyState = [] \<and>
   length (childUIs (addClasses [(''A'', 1), (''B'', 2), (''A'', 1)] emptyState)) = 3 \<and>
   distinct (map fst (childUIs (addClasses [(''A'', 1), (''B'', 2), (''A'', 1)] emptyState))) \<and>
   (\<exists>i \<le> length (classes emptyState).
      setClass None ''A'' 1 emptyState =
        (None, setClassVectorParameterClasses (classes emptyState @ [(''p'' @ format_d i, ''A'', 1)])
                 (updateChildUIs (Some (classes emptyState)) False emptyState)))"
  using setClass_adds_unused_name
          [of emptyState "''A''" 1 "[(''A'', 1), (''B'', 2), (''A'', 1)]"]
  by (simp add: emptyState_def)

text \<open>
  C1. In \<^verbatim>\<open>_removeClass\<close> and in \<^verbatim>\<open>_setClass\<close> the pass of \<^verbatim>\<open>__updateChildUIs\<close> is over
  before the list is committed: the host calls of \<^verbatim>\<open>_removeClass\<close> are those of the
  update pass, none of them a commit and the last of them the closing layout edit,
  followed by the one call of \<^verbatim>\<open>setClassVectorParameterClasses\<close>; the host calls of
  \<^verbatim>\<open>_setClass\<close> are those of its update pass followed by the one commit when it returns,
  and those of the update pass alone when it raises.
\<close>

theorem update_precedes_commit:
  "(let cs = filter (\<lambda>c. fst c \<noteq> parameterName) (classes s);
        pre = updateChildUIs (Some cs) False s;
        done = removeClass parameterName s
    in trace done = trace s @ eventsSince s done \<and>
       eventsSince s done = eventsSince s pre @ [SetClasses cs] \<and>
       \<not> list_ex isCommit (eventsSince s pre) \<and>
       (\<exists>attached. last (eventsSince s pre) = FormLayoutEdit attached)) \<and>
   (let without = filter (\<lambda>c. Some (fst c) \<noteq> name) (classes s);
        pre = updateChildUIs (Some without) False s;
        done = snd (setClass name cn cv s)
    in trace done = trace s @ eventsSince s done \<and>
       \<not> list_ex isCommit (eventsSince s pre) \<and>
       (\<exists>attached. last (eventsSince s pre) = FormLayoutEdit attached) \<and>
       (case fst (setClass name cn cv s) of
          None \<Rightarrow> \<exists>cs. eventsSince s done = eventsSince s pre @ [SetClasses cs]
        | Some e \<Rightarrow> eventsSince s done = eventsSince s pre))"
proof (intro conjI)
  let ?cs = "filter (\<lambda>c. fst c \<noteq> parameterName) (classes s)"
  let ?pre = "updateChildUIs (Some ?cs) False s"
  have p: "trace ?pre = trace s @ eventsSince s ?pre"
    using update_events [of "Some ?cs" False s] by blast
  have r: "removeClass parameterName s = setClassVectorParameterClasses ?cs ?pre"
    by (simp add: removeClass_def Let_def)
  show "let cs = ?cs; pre = updateChildUIs (Some cs) False s; done = removeClass parameterName s
    in trace done = trace s @ eventsSince s done \<and>
       eventsSince s done = eventsSince s pre @ [SetClasses cs] \<and>
       \<not> list_ex isCommit (eventsSince s pre) \<and>
       (\<exists>attached. last (eventsSince s pre) = FormLayoutEdit attached)"
    unfolding Let_def r
    using commit_events [OF p, of ?cs] update_no_commit [of s "Some ?cs" False]
          update_last_event [of s "Some ?cs" False]
    by blast
next
  let ?w = "filter (\<lambda>c. Some (fst c) \<noteq> name) (classes s)"
  let ?pre = "updateChildUIs (Some ?w) False s"
  have p: "trace ?pre = trace s @ eventsSince s ?pre"
    using update_events [of "Some ?w" False s] by blast
  have nc: "\<not> list_ex isCommit (eventsSince s ?pre)" by (rule update_no_commit)
  have la: "\<exists>attached. last (eventsSince s ?pre) = FormLayoutEdit attached"
    using update_last_event [of s "Some ?w" False] by blast
  consider (err) "setClass name cn cv s = (Some (notPresent (the name)), ?pre)"
    | (ok) cs where "setClass name cn cv s = (None, setClassVectorParameterClasses cs ?pre)"
    using setClass_cases [of name cn cv s] by blast
  then show "let without = ?w; pre = updateChildUIs (Some without) False s;
        done = snd (setClass name cn cv s)
    in trace done = trace s @ eventsSince s done \<and>
       \<not> list_ex isCommit (eventsSince s pre) \<and>
       (\<exists>attached. last (eventsSince s pre) = FormLayoutEdit attached) \<and>
       (case fst (setClass name cn cv s) of
          None \<Rightarrow> \<exists>cs. eventsSince s done = eventsSince s pre @ [SetClasses cs]
        | Some e \<Rightarrow> eventsSince s done = eventsSince s pre)"
  proof cases
    case err
    then show ?thesis unfolding Let_def using p nc la by simp
  next
    case ok
    then show ?thesis unfolding Let_def using commit_events [OF p, of cs] nc la by simp
  qed
qed

theorem update_precedes_commit_witness:
  "eventsSince staleState (removeClass ''gone'' staleState) =
     eventsSince staleState (updateChildUIs (Some [(''p0'', ''A'', 1)]) False staleState) @
     [SetClasses [(''p0'', ''A'', 1)]] \<and>
   \<not> list_ex isCommit
       (eventsSince staleState (updateChildUIs (Some [(''p0'', ''A'', 1)]) False staleState))"
  using update_precedes_commit [of "''gone''" staleState None "''A''" 1]
  by (simp add: Let_def staleState_def)

text \<open>
  C10. \<^verbatim>\<open>_setClass\<close> with a non-empty parameter name that is not in the class list
  raises the RuntimeError "Parameter ... not present" and never calls
  \<^verbatim>\<open>setClassVectorParameterClasses\<close>, the class list staying as it was; but the state it
  leaves is that of the update pass already run: the registry has no child for that
  name, and a child registered for it before has been deleted by then.
\<close>

theorem setClass_unknown_name:
  assumes "parameterName \<noteq> []" and "parameterName \<notin> set (map fst (classes s))"
  shows "setClass (Some parameterName) cn cv s =
           (Some (notPresent parameterName), updateChildUIs (Some (classes s)) False s) \<and>
         \<not> list_ex isCommit (eventsSince s (snd (setClass (Some parameterName) cn cv s))) \<and>
         classes (snd (setClass (Some parameterName) cn cv s)) = classes s \<and>
         map_of (childUIs (snd (setClass (Some parameterName) cn cv s))) parameterName = None \<and>
         (\<forall>ui. map_of (childUIs s) parameterName = Some ui \<longrightarrow>
            DeleteUI (topLevelUI ui)
              \<in> set (eventsSince s (snd (setClass (Some parameterName) cn cv s))))"
proof -
  let ?pre = "updateChildUIs (Some (classes s)) False s"
  have absent: "parameterName \<notin> fst ` set (classes s)" using assms(2) by simp
  have f: "filter (\<lambda>c. fst c \<noteq> parameterName) (classes s) = classes s"
    by (rule filter_absent [OF absent])
  have n: "findParameter parameterName (classes s) 0 = None"
    using absent by (simp add: findParameter_None)
  have r: "setClass (Some parameterName) cn cv s = (Some (notPresent parameterName), ?pre)"
    using assms(1) n by (simp add: setClass_def Let_def f)
  have keys: "parameterName \<notin> fst ` set (childUIs ?pre)"
    using update_keys [of "Some (classes s)" False s] absent
    by (simp add: givenClasses_def)
  have gone: "map_of (childUIs ?pre) parameterName = None"
    using keys by (simp add: map_of_eq_None_iff)
  have del: "DeleteUI (topLevelUI ui) \<in> set (eventsSince s ?pre)"
    if "map_of (childUIs s) parameterName = Some ui" for ui
  proof -
    have "DeleteUI (topLevelUI ui) \<in> set (eventsSince s (afterDelete (Some (classes s)) False s))"
      using afterDelete_events [of "Some (classes s)" False s] that absent
      by (auto simp: givenClasses_def)
    then show ?thesis by (simp add: update_events)
  qed
  show ?thesis unfolding r using update_no_commit [of s "Some (classes s)" False] gone del
    by simp
qed


theorem setClass_unknown_name_witness:
  "''gone'' \<noteq> [] \<and> ''gone'' \<notin> set (map fst (classes staleState)) \<and>
   fst (setClass (Some ''gone'') ''B'' 7 staleState) = Some (notPresent ''gone'') \<and>
   map_of (childUIs staleState) ''gone'' = Some \<lparr>topLevelUI = 1, className = ''B'', classVersion = 2\<rparr> \<and>
   DeleteUI 1 \<in> set (eventsSince staleState (snd (setClass (Some ''gone'') ''B'' 7 staleState)))"
proof -
  have h: "''gone'' \<noteq> []" "''gone'' \<notin> set (map fst (classes staleState))"
    by (simp_all add: staleState_def)
  have m: "map_of (childUIs staleState) ''gone'' = Some \<lparr>topLevelUI = 1, className = ''B'', classVersion = 2\<rparr>"
    by (simp add: staleState_def)
  note t = setClass_unknown_name [OF h, of "''B''" 7]
  have e: "fst (setClass (Some ''gone'') ''B'' 7 staleState) = Some (notPresent ''gone'')"
    using t by simp
  have "\<forall>ui. map_of (childUIs staleState) ''gone'' = Some ui \<longrightarrow>
          DeleteUI (topLevelUI ui)
            \<in> set (eventsSince staleState (snd (setClass (Some ''gone'') ''B'' 7 staleState)))"
    using t by blast
  then have "DeleteUI (topLevelUI \<lparr>topLevelUI = 1, className = ''B'', classVersion = 2\<rparr>)
            \<in> set (eventsSince staleState (snd (setClass (Some ''gone'') ''B'' 7 staleState)))"
    using m by blast
  then have d: "DeleteUI 1
            \<in> set (eventsSince staleState (snd (setClass (Some ''gone'') ''B'' 7 staleState)))"
    by simp
  show ?thesis using h m e d by blast
qed

text \<open>
  C4, as the claim states it, at an addition: the registry left by the update pass of
  \<^verbatim>\<open>_setClass\<close> on a widget with the one entry \<open>p0\<close> holds \<open>p0\<close> alone, while the list
  committed right after holds \<open>p0\<close> and the new \<open>p1\<close>.
\<close>

theorem preupdate_matches_commit_counterexample:
  "setClass None ''B'' 7 syncedState =
     (None,
      \<lparr>classes = [(''p0'', ''A'', 1), (''p1'', ''B'', 7)],
       childUIs = [(''p0'', \<lparr>topLevelUI = 0, className = ''A'', classVersion = 1\<rparr>)],
       nextUI = 1,
       trace = [FormLayoutEdit [0], SetClasses [(''p0'', ''A'', 1), (''p1'', ''B'', 7)]]\<rparr>) \<and>
   set (map fst (childUIs (snd (setClass None ''B'' 7 syncedState)))) \<noteq>
     set (map fst [(''p0'', ''A'', 1), (''p1'', ''B'', 7 :: int)])"
  by code_simp

text \<open>
  C4, amended. The update pass before the commit reconciles the children with the
  entries the mutation leaves as they are. For a removal these are the entries
  committed, so that the names of the registry are the names of the committed list. For
  a replacement and for an addition the pass runs over the list without the entry of
  the given name (\<^verbatim>\<open>classesWithoutThis\<close>), so that the names of the registry are those of
  the committed list other than the name of the replaced or added entry: the child for
  that entry is not there before the commit.
\<close>

theorem preupdate_registry_names:
  "(childUIs (removeClass parameterName s) =
      childUIs (updateChildUIs (Some (classes (removeClass parameterName s))) False s) \<and>
    set (map fst (childUIs (removeClass parameterName s))) =
      set (map fst (classes (removeClass parameterName s)))) \<and>
   (parameterName \<noteq> [] \<and> fst (setClass (Some parameterName) cn cv s) = None \<longrightarrow>
      set (map fst (childUIs (snd (setClass (Some parameterName) cn cv s)))) =
        set (map fst (classes (snd (setClass (Some parameterName) cn cv s)))) - {parameterName}) \<and>
   (\<exists>added.
      fst (setClass None cn cv s) = None \<and>
      classes (snd (setClass None cn cv s)) = classes s @ [(added, cn, cv)] \<and>
      set (map fst (childUIs (snd (setClass None cn cv s)))) =
        set (map fst (classes (snd (setClass None cn cv s)))) - {added})"
proof (intro conjI impI)
  let ?cs = "filter (\<lambda>c. fst c \<noteq> parameterName) (classes s)"
  have r: "removeClass parameterName s =
             setClassVectorParameterClasses ?cs (updateChildUIs (Some ?cs) False s)"
    by (simp add: removeClass_def Let_def)
  show "childUIs (removeClass parameterName s) =
      childUIs (updateChildUIs (Some (classes (removeClass parameterName s))) False s)"
    unfolding r by simp
  show "set (map fst (childUIs (removeClass parameterName s))) =
      set (map fst (classes (removeClass parameterName s)))"
    unfolding r using update_keys [of "Some ?cs" False s] by (simp add: givenClasses_def)
next
  assume a: "parameterName \<noteq> [] \<and> fst (setClass (Some parameterName) cn cv s) = None"
  let ?w = "filter (\<lambda>c. fst c \<noteq> parameterName) (classes s)"
  let ?pre = "updateChildUIs (Some ?w) False s"
  obtain i where i: "findParameter parameterName (classes s) 0 = Some i"
    using a by (cases "findParameter parameterName (classes s) 0") (auto simp: setClass_def Let_def)
  have r: "setClass (Some parameterName) cn cv s =
             (None, setClassVectorParameterClasses ((classes s)[i := (parameterName, cn, cv)]) ?pre)"
    using a i by (simp add: setClass_def Let_def)
  have "i < length (classes s)" "fst (classes s ! i) = parameterName"
    using findParameter_Some [OF i] by simp_all
  then have names: "map fst ((classes s)[i := (parameterName, cn, cv)]) = map fst (classes s)"
    by (rule names_replace)
  have "fst ` set (childUIs ?pre) = fst ` set (classes s) - {parameterName}"
    using update_keys [of "Some ?w" False s]
    by (simp add: givenClasses_def names_filter del: set_filter)
  then show "set (map fst (childUIs (snd (setClass (Some parameterName) cn cv s)))) =
        set (map fst (classes (snd (setClass (Some parameterName) cn cv s)))) - {parameterName}"
    unfolding r using names by simp
next
  let ?pre = "updateChildUIs (Some (classes s)) False s"
  obtain i where i: "appendClass cn cv ?pre =
       (None, setClassVectorParameterClasses (classes ?pre @ [(pName i, cn, cv)]) ?pre)"
     "pName i \<notin> set (map fst (classes ?pre))"
    using appendClass_result [of ?pre cn cv] by blast
  have k: "fst ` set (childUIs ?pre) = fst ` set (classes s)"
    using update_keys [of "Some (classes s)" False s] by (simp add: givenClasses_def)
  have "fst (setClass None cn cv s) = None \<and>
      classes (snd (setClass None cn cv s)) = classes s @ [(pName i, cn, cv)] \<and>
      set (map fst (childUIs (snd (setClass None cn cv s)))) =
        set (map fst (classes (snd (setClass None cn cv s)))) - {pName i}"
    unfolding setClass_None i(1) using i(2) k by auto
  then show "\<exists>added.
      fst (setClass None cn cv s) = None \<and>
      classes (snd (setClass None cn cv s)) = classes s @ [(added, cn, cv)] \<and>
      set (map fst (childUIs (snd (setClass None cn cv s)))) =
        set (map fst (classes (snd (setClass None cn cv s)))) - {added}"
    by blast
qed

theorem preupdate_registry_names_witness:
  "''p0'' \<noteq> [] \<and> fst (setClass (Some ''p0'') ''B'' 7 syncedState) = None \<and>
   set (map fst (childUIs (snd (setClass (Some ''p0'') ''B'' 7 syncedState)))) =
     set (map fst (classes (snd (setClass (Some ''p0'') ''B'' 7 syncedState)))) - {''p0''}"
proof -
  have h: "''p0'' \<noteq> [] \<and> fst (setClass (Some ''p0'') ''B'' 7 syncedState) = None"
    by (simp add: setClass_def Let_def syncedState_def)
  show ?thesis using h preupdate_registry_names [of "''p0''" syncedState "''B''" 7] by blast
qed

text \<open>
  C3. In a reconciliation over entries with distinct parameter names, a child registered
  under a parameter name is reused (it stays in the registry under its name and is not
  deleted) if and only if \<^verbatim>\<open>startFromScratch\<close> is false and the list has an entry of that
  name with the child's class name and class version. In every other case (name absent,
  class name or class version changed, or \<^verbatim>\<open>startFromScratch\<close> set) the child is deleted,
  and when the name is still in the list a new child of the entry's class name and
  version is built and registered under it; when the name is gone the registry has no
  child for it.
\<close>

theorem updateChildUIs_reuse_iff:
  assumes ok: "handlesOk s"
    and dist: "distinct (map fst (givenClasses classesArg s))"
    and reg: "map_of (childUIs s) parameterName = Some ui"
  shows
    "((map_of (childUIs (updateChildUIs classesArg startFromScratch s)) parameterName = Some ui \<and>
       DeleteUI (topLevelUI ui)
         \<notin> set (eventsSince s (updateChildUIs classesArg startFromScratch s)))
      \<longleftrightarrow>
      (\<not> startFromScratch \<and>
       (parameterName, className ui, classVersion ui) \<in> set (givenClasses classesArg s))) \<and>
     (\<not> (\<not> startFromScratch \<and>
         (parameterName, className ui, classVersion ui) \<in> set (givenClasses classesArg s)) \<longrightarrow>
        DeleteUI (topLevelUI ui)
          \<in> set (eventsSince s (updateChildUIs classesArg startFromScratch s)) \<and>
        (parameterName \<notin> set (map fst (givenClasses classesArg s)) \<longrightarrow>
           map_of (childUIs (updateChildUIs classesArg startFromScratch s)) parameterName = None) \<and>
        (\<forall>cn cv. (parameterName, cn, cv) \<in> set (givenClasses classesArg s) \<longrightarrow>
           (\<exists>built.
              map_of (childUIs (updateChildUIs classesArg startFromScratch s)) parameterName
                = Some built \<and>
              className built = cn \<and> classVersion built = cv \<and>
              topLevelUI ui < topLevelUI built \<and>
              CreateUI (topLevelUI built) parameterName
                \<in> set (eventsSince s (updateChildUIs classesArg startFromScratch s)))))"
proof -
  let ?cs = "givenClasses classesArg s"
  let ?b = startFromScratch
  let ?n = parameterName
  let ?s1 = "afterDelete classesArg ?b s"
  let ?s2 = "snd (attachChildren ?cs ?s1)"
  let ?s' = "updateChildUIs classesArg ?b s"
  let ?E1 = "eventsSince s ?s1"
  let ?E2 = "eventsSince ?s1 ?s2"
  let ?reused = "\<not> ?b \<and> (?n, className ui, classVersion ui) \<in> set ?cs"
  have ev: "set (eventsSince s ?s') =
              set ?E1 \<union> set ?E2 \<union> {FormLayoutEdit (fst (attachChildren ?cs ?s1))}"
    by (simp add: update_events [of classesArg ?b s] Un_commute)
  have del_iff: "DeleteUI h \<in> set (eventsSince s ?s') \<longleftrightarrow>
                   DeleteUI h \<in> set ?E1 \<or> DeleteUI h \<in> set ?E2" for h
    unfolding ev by simp
  have cre: "CreateUI h n \<in> set ?E2 \<Longrightarrow> CreateUI h n \<in> set (eventsSince s ?s')" for h n
    unfolding ev by simp
  have E1: "DeleteUI h \<in> set ?E1 \<longleftrightarrow>
      (\<exists>k u. h = topLevelUI u \<and> map_of (childUIs s) k = Some u \<and> (k \<notin> fst ` set ?cs \<or> ?b))" for h
    using afterDelete_events [of classesArg ?b s] by auto
  have E2: "DeleteUI h \<in> set ?E2 \<longleftrightarrow>
     (\<exists>n cn cv u. (n, cn, cv) \<in> set ?cs \<and> map_of (childUIs ?s1) n = Some u \<and>
        (className u \<noteq> cn \<or> classVersion u \<noteq> cv) \<and> h = topLevelUI u)" for h
    by (rule ac_deleted [OF dist])
  have m1: "map_of (childUIs ?s1) k =
              (if k \<in> fst ` set ?cs \<and> \<not> ?b then map_of (childUIs s) k else None)" for k
    by (rule afterDelete_map_of)
  have s': "childUIs ?s' = childUIs ?s2" by (rule update_childUIs)
  have below: "topLevelUI ui < nextUI s" by (rule handle_below [OF ok reg])
  have A: "map_of (childUIs ?s') ?n = Some ui \<and> DeleteUI (topLevelUI ui) \<notin> set (eventsSince s ?s')"
    if r: "?reused"
  proof
    have "?n \<in> fst ` set ?cs" using r by force
    then have "map_of (childUIs ?s1) ?n = Some ui" using r reg by (simp add: afterDelete_map_of)
    then show "map_of (childUIs ?s') ?n = Some ui"
      unfolding s' using ac_reuse [OF dist, of ?n "className ui" "classVersion ui" ?s1 ui] r
      by simp
    have "DeleteUI (topLevelUI ui) \<notin> set ?E1"
    proof
      assume "DeleteUI (topLevelUI ui) \<in> set ?E1"
      then obtain k u where ku: "topLevelUI ui = topLevelUI u" "map_of (childUIs s) k = Some u"
          "k \<notin> fst ` set ?cs \<or> ?b"
        unfolding E1 by blast
      have "k = ?n" using handle_unique [OF ok ku(2) reg] ku(1) by simp
      then show False using ku(3) r by force
    qed
    moreover have "DeleteUI (topLevelUI ui) \<notin> set ?E2"
    proof
      assume "DeleteUI (topLevelUI ui) \<in> set ?E2"
      then obtain n cn cv u where u: "(n, cn, cv) \<in> set ?cs" "map_of (childUIs ?s1) n = Some u"
          "className u \<noteq> cn \<or> classVersion u \<noteq> cv" "topLevelUI ui = topLevelUI u"
        unfolding E2 by blast
      have "map_of (childUIs s) n = Some u" using u(2) by (simp add: afterDelete_map_of split: if_splits)
      then have "n = ?n \<and> u = ui" using handle_unique [OF ok _ reg] u(4) by simp
      then show False using entry_unique [OF dist, of ?n "className ui" "classVersion ui" cn cv] r u(1,3)
        by blast
    qed
    ultimately show "DeleteUI (topLevelUI ui) \<notin> set (eventsSince s ?s')"
      unfolding del_iff by simp
  qed
  have B: "DeleteUI (topLevelUI ui) \<in> set (eventsSince s ?s')" if nr: "\<not> ?reused"
  proof (cases "?n \<notin> fst ` set ?cs \<or> ?b")
    case True
    then have "DeleteUI (topLevelUI ui) \<in> set ?E1" unfolding E1 using reg by blast
    then show ?thesis unfolding del_iff by simp
  next
    case False
    then obtain cn cv where e: "(?n, cn, cv) \<in> set ?cs" by auto
    have "className ui \<noteq> cn \<or> classVersion ui \<noteq> cv" using e nr False by auto
    moreover have "map_of (childUIs ?s1) ?n = Some ui" using False reg by (simp add: afterDelete_map_of)
    ultimately have "DeleteUI (topLevelUI ui) \<in> set ?E2" unfolding E2 using e by blast
    then show ?thesis unfolding del_iff by simp
  qed
  have C: "map_of (childUIs ?s') ?n = None" if "?n \<notin> set (map fst ?cs)"
  proof -
    have nn: "?n \<notin> fst ` set ?cs" using that by simp
    then have "map_of (childUIs ?s1) ?n = None" by (simp add: afterDelete_map_of)
    then show ?thesis unfolding s' by (simp add: ac_frame [OF nn])
  qed
  have D: "\<exists>built. map_of (childUIs ?s') ?n = Some built \<and>
              className built = cn \<and> classVersion built = cv \<and>
              topLevelUI ui < topLevelUI built \<and>
              CreateUI (topLevelUI built) ?n \<in> set (eventsSince s ?s')"
    if nr: "\<not> ?reused" and e: "(?n, cn, cv) \<in> set ?cs" for cn cv
  proof -
    have no: "\<not> (\<exists>u. map_of (childUIs ?s1) ?n = Some u \<and> className u = cn \<and> classVersion u = cv)"
    proof
      assume "\<exists>u. map_of (childUIs ?s1) ?n = Some u \<and> className u = cn \<and> classVersion u = cv"
      then obtain u where u: "map_of (childUIs ?s1) ?n = Some u" "className u = cn" "classVersion u = cv"
        by blast
      then have "\<not> ?b" "map_of (childUIs s) ?n = Some u" by (simp_all add: afterDelete_map_of split: if_splits)
      then have "\<not> ?b" "u = ui" using reg by simp_all
      then show False using nr e u(2,3) by simp
    qed
    obtain built where b: "map_of (childUIs ?s2) ?n = Some built"
        "className built = cn" "classVersion built = cv" "nextUI ?s1 \<le> topLevelUI built"
        "CreateUI (topLevelUI built) ?n \<in> set ?E2"
      using ac_built [OF dist e no] by blast
    have "topLevelUI ui < topLevelUI built" using b(4) below by simp
    then show ?thesis unfolding s' using b(1,2,3) cre [OF b(5)] by blast
  qed
  show ?thesis using A B C D by blast
qed


theorem updateChildUIs_reuse_iff_witness:
  "handlesOk staleState \<and>
   distinct (map fst (givenClasses None staleState)) \<and>
   map_of (childUIs staleState) ''p0'' = Some \<lparr>topLevelUI = 0, className = ''A'', classVersion = 1\<rparr> \<and>
   map_of (childUIs (updateChildUIs None False staleState)) ''p0''
     = Some \<lparr>topLevelUI = 0, className = ''A'', classVersion = 1\<rparr> \<and>
   DeleteUI 0 \<notin> set (eventsSince staleState (updateChildUIs None False staleState)) \<and>
   DeleteUI 0 \<in> set (eventsSince staleState (updateChildUIs None True staleState)) \<and>
   (\<exists>built.
      map_of (childUIs (updateChildUIs None True staleState)) ''p0'' = Some built \<and>
      className built = ''A'' \<and> classVersion built = 1 \<and> 0 < topLevelUI built)"
proof -
  let ?w = "\<lparr>topLevelUI = 0, className = ''A'', classVersion = 1\<rparr>"
  have ok: "handlesOk staleState"
    by (simp add: handlesOk_def staleState_def)
  have dist: "distinct (map fst (givenClasses None staleState))"
    by (simp add: givenClasses_def staleState_def)
  have reg: "map_of (childUIs staleState) ''p0'' = Some ?w"
    by (simp add: staleState_def)
  have entry: "(''p0'', className ?w, classVersion ?w) \<in> set (givenClasses None staleState)"
    by (simp add: givenClasses_def staleState_def)
  have keep: "map_of (childUIs (updateChildUIs None False staleState)) ''p0'' = Some ?w \<and>
       DeleteUI (topLevelUI ?w) \<notin> set (eventsSince staleState (updateChildUIs None False staleState))"
    using updateChildUIs_reuse_iff [OF ok dist reg, of False] entry by blast
  have scratch: "DeleteUI (topLevelUI ?w)
          \<in> set (eventsSince staleState (updateChildUIs None True staleState)) \<and>
       (\<exists>built.
          map_of (childUIs (updateChildUIs None True staleState)) ''p0'' = Some built \<and>
          className built = className ?w \<and> classVersion built = classVersion ?w \<and>
          topLevelUI ?w < topLevelUI built)"
    using updateChildUIs_reuse_iff [OF ok dist reg, of True] entry by blast
  show ?thesis using ok dist reg keep scratch by simp
qed

end
